theory Spec2Isabelle
  imports Main
begin

section \<open>INI-Parser: the data model\<close>

text \<open>
  The header \<^verbatim>\<open>INI-Parser.h\<close> defines two classes. \<^verbatim>\<open>IniParser\<close> owns
  \<^verbatim>\<open>builder\<close>, an \<^verbatim>\<open>unordered_map\<close> from section names to an
  \<^verbatim>\<open>unordered_map\<close> from key names to values. \<^verbatim>\<open>IniParserX\<close> adds
  \<^verbatim>\<open>arrays\<close> and \<^verbatim>\<open>connection\<close>, both maps from strings to vectors of strings.
  Strings are byte sequences (\<^verbatim>\<open>std::string\<close>), modelled as \<^typ>\<open>string\<close>.
  The member \<^verbatim>\<open>filePath\<close> only names the file that is opened; here the content of
  the file is passed to the functions that read it and returned by those that write it.
\<close>

datatype error =
    KeyNotFound | KeyAlreadyExist | FileLoadedError | KeyNotArray | KeyIsArray | CanNotArray
  | OutOfRange \<comment> \<open>\<^verbatim>\<open>std::out_of_range\<close>, thrown by \<^verbatim>\<open>substr\<close> and \<^verbatim>\<open>at\<close>\<close>
  | Undefined \<comment> \<open>undefined behaviour: \<^verbatim>\<open>back()\<close> of an empty vector\<close>

type_synonym section_map = "string \<rightharpoonup> string"
type_synonym builder = "string \<rightharpoonup> section_map"

record parserX =
  builder :: builder
  arrays :: "string \<rightharpoonup> string list"
  connection :: "string \<rightharpoonup> string list"

definition emptyX :: parserX where
  "emptyX = \<lparr>builder = Map.empty, arrays = Map.empty, connection = Map.empty\<rparr>"

text \<open>
  A mutating member function returns the outcome (\<open>Inl\<close> the exception thrown, \<open>Inr\<close> the
  value returned) together with the object as the call leaves it.
\<close>

type_synonym ('r, 's) outcome = "(error + 'r) \<times> 's"

subsection \<open>\<^verbatim>\<open>std::string\<close> and \<^verbatim>\<open>size_t\<close>\<close>

text \<open>
  \<^verbatim>\<open>find\<close> returns the first position or \<^verbatim>\<open>npos\<close>; \<open>None\<close> stands for
  \<^verbatim>\<open>npos\<close>, whose value as a \<^verbatim>\<open>size_t\<close> is \<open>2^64 - 1\<close>. Subtraction of
  \<^verbatim>\<open>size_t\<close> values wraps around.
\<close>

definition npos :: nat where
  "npos = 2 ^ 64 - 1"

definition pos_val :: "nat option \<Rightarrow> nat" where
  "pos_val p = (case p of None \<Rightarrow> npos | Some i \<Rightarrow> i)"

definition sz_sub :: "nat \<Rightarrow> nat \<Rightarrow> nat" where
  "sz_sub a b = (2 ^ 64 + a - b) mod 2 ^ 64"

definition find_chr :: "string \<Rightarrow> char \<Rightarrow> nat option" where
  "find_chr s c = (if c \<in> set s then Some (length (takeWhile (\<lambda>x. x \<noteq> c) s)) else None)"

fun find_str :: "string \<Rightarrow> string \<Rightarrow> nat option" where
  "find_str [] pat = (if pat = [] then Some 0 else None)"
| "find_str (c # cs) pat =
     (if take (length pat) (c # cs) = pat then Some 0 else map_option Suc (find_str cs pat))"

definition find_first_not_of :: "string \<Rightarrow> char \<Rightarrow> nat option" where
  "find_first_not_of s c =
     (if \<forall>x \<in> set s. x = c then None else Some (length (takeWhile (\<lambda>x. x = c) s)))"

definition find_last_not_of :: "string \<Rightarrow> char \<Rightarrow> nat option" where
  "find_last_not_of s c =
     (if \<forall>x \<in> set s. x = c then None
      else Some (length s - 1 - length (takeWhile (\<lambda>x. x = c) (rev s))))"

text \<open>
  \<^verbatim>\<open>s.substr(pos, n)\<close> throws \<^verbatim>\<open>std::out_of_range\<close> when \<open>pos > size\<close> and is
  otherwise the at most \<open>n\<close> characters from \<open>pos\<close>; \<^verbatim>\<open>s.substr(pos)\<close> runs to the end.
  Where the source calls it at a position that \<^verbatim>\<open>find\<close> has just returned (or one
  past it) it cannot throw, and the model writes \<open>substr_n\<close> or \<open>substr_end\<close>.
\<close>

definition substr_n :: "string \<Rightarrow> nat \<Rightarrow> nat \<Rightarrow> string" where
  "substr_n s pos n = take n (drop pos s)"

definition substr_end :: "string \<Rightarrow> nat \<Rightarrow> string" where
  "substr_end s pos = drop pos s"

definition substr :: "string \<Rightarrow> nat option \<Rightarrow> nat \<Rightarrow> error + string" where
  "substr s pos n =
     (case pos of None \<Rightarrow> Inl OutOfRange \<comment> \<open>\<^verbatim>\<open>npos\<close> exceeds every size\<close>
      | Some p \<Rightarrow> if p > length s then Inl OutOfRange else Inr (substr_n s p n))"

text \<open>
  \<^verbatim>\<open>strip\<close>: \<^verbatim>\<open>st = s.find_first_not_of(' ')\<close>, \<^verbatim>\<open>ed = s.find_last_not_of(' ')\<close>,
  \<^verbatim>\<open>return s.substr(st, ed - st + 1)\<close>.
\<close>

definition strip :: "string \<Rightarrow> error + string" where
  "strip s =
     (let st = find_first_not_of s CHR '' ''; ed = find_last_not_of s CHR '' ''
      in substr s st ((sz_sub (pos_val ed) (pos_val st) + 1) mod 2 ^ 64))"

text \<open>\<^verbatim>\<open>std::getline\<close> in a loop: the lines of a file's content.\<close>

function getlines :: "string \<Rightarrow> string list" where
  "getlines s =
     (if s = [] then []
      else takeWhile (\<lambda>c. c \<noteq> CHR 0x0A) s # getlines (tl (dropWhile (\<lambda>c. c \<noteq> CHR 0x0A) s)))"
  by pat_completeness auto
termination
proof (relation "measure length")
  show "wf (measure length)" by simp
next
  fix s :: string
  assume ne: "s \<noteq> []"
  show "(tl (dropWhile (\<lambda>c. c \<noteq> CHR 0x0A) s), s) \<in> measure length"
  proof (cases "dropWhile (\<lambda>c. c \<noteq> CHR 0x0A) s")
    case Nil
    from ne have "0 < length s" by simp
    then show ?thesis unfolding Nil by simp
  next
    case (Cons x xs)
    have "length (dropWhile (\<lambda>c. c \<noteq> CHR 0x0A) s) \<le> length s"
      by (rule length_dropWhile_le)
    with Cons show ?thesis by simp
  qed
qed

declare getlines.simps [simp del]

subsection \<open>The base parser \<^verbatim>\<open>IniParser\<close>\<close>

text \<open>
  \<^verbatim>\<open>builder[section]\<close> inserts an empty section when there is none;
  \<^verbatim>\<open>builder[section][key] = value\<close> then stores into it.
\<close>

definition at_or_new :: "builder \<Rightarrow> string \<Rightarrow> section_map" where
  "at_or_new b section = (case b section of None \<Rightarrow> Map.empty | Some m \<Rightarrow> m)"

definition store :: "builder \<Rightarrow> string \<Rightarrow> string \<Rightarrow> string \<Rightarrow> builder" where
  "store b section key v = b(section \<mapsto> (at_or_new b section)(key \<mapsto> v))"

definition include_key :: "builder \<Rightarrow> string \<Rightarrow> bool" where
  "include_key b key =
     (case find_chr key CHR ''/'' of
        None \<Rightarrow> b key \<noteq> None
      | Some x \<Rightarrow>
          (let section = substr_n key 0 x; subsection = substr_end key (x + 1)
           in case b section of None \<Rightarrow> False | Some m \<Rightarrow> m subsection \<noteq> None))"

text \<open>
  \<^verbatim>\<open>value\<close> and \<^verbatim>\<open>operator[]\<close> return a reference into the map, obtained by
  \<^verbatim>\<open>builder[section][key]\<close>. Both subscripts insert what is missing: the section, and
  the key with the empty string as its value (\<open>subscript\<close>). The reference is modelled by
  the pair (section, key) it points to; \<open>deref\<close> reads through it.
\<close>

type_synonym ref = "string \<times> string"

definition deref :: "builder \<Rightarrow> ref \<Rightarrow> string option" where
  "deref b r = (case b (fst r) of None \<Rightarrow> None | Some m \<Rightarrow> m (snd r))"

definition subscript :: "builder \<Rightarrow> string \<Rightarrow> string \<Rightarrow> builder" where
  "subscript b section key =
     (let m = at_or_new b section
      in b(section \<mapsto> (if m key = None then m(key \<mapsto> []) else m)))"

definition value1 :: "string \<Rightarrow> builder \<Rightarrow> (ref, builder) outcome" where
  "value1 key b =
     (case find_chr key CHR ''/'' of
        None \<Rightarrow> (Inl KeyNotFound, b)
      | Some x \<Rightarrow>
          if \<not> include_key b key then (Inl KeyNotFound, b)
          else
            (let section = substr_n key 0 x; subsection = substr_end key (x + 1)
             in (Inr (section, subsection), subscript b section subsection)))"

definition value2 :: "string \<Rightarrow> string \<Rightarrow> builder \<Rightarrow> (ref, builder) outcome" where
  "value2 section key b =
     (if \<not> include_key b section then (Inl KeyNotFound, b)
      else if \<not> include_key b (section @ ''/'' @ key) then (Inl KeyNotFound, b)
      else (Inr (section, key), subscript b section key))"

definition op_index :: "string \<Rightarrow> builder \<Rightarrow> (ref, builder) outcome" where
  "op_index key b =
     (case find_chr key CHR ''/'' of
        None \<Rightarrow> (Inl KeyNotFound, b)
      | Some x \<Rightarrow>
          if \<not> include_key b (substr_n key 0 x) then (Inl KeyNotFound, b)
          else
            (let section = substr_n key 0 x; subsection = substr_end key (x + 1)
             in (Inr (section, subsection), subscript b section subsection)))"

definition add_key :: "string \<Rightarrow> string \<Rightarrow> string \<Rightarrow> builder \<Rightarrow> (unit, builder) outcome" where
  "add_key section key v b =
     (if find_str key ''[]'' \<noteq> None then (Inl CanNotArray, b)
      else if \<not> include_key b section then (Inr (), store b section key v)
      else if \<not> include_key b (section @ ''/'' @ key) then (Inr (), store b section key v)
      else (Inl KeyAlreadyExist, b))"

text \<open>
  \<^verbatim>\<open>builder[section].erase(key)\<close>, then
  \<^verbatim>\<open>if (builder[section].empty()) builder.erase(section)\<close>.
\<close>

definition erase_key :: "builder \<Rightarrow> string \<Rightarrow> string \<Rightarrow> builder" where
  "erase_key b section key =
     (let m = (at_or_new b section)(key := None)
      in if m = Map.empty then b(section := None) else b(section \<mapsto> m))"


text \<open>
  \<^verbatim>\<open>parse_inline\<close> keeps the current section in a function-local \<^verbatim>\<open>static\<close>
  string: one variable for the whole program, shared by every instance and every call,
  initially empty. The model threads it through as the first component of the state.
\<close>

type_synonym 's with_static = "string \<times> 's"

definition parse_inline :: "string \<Rightarrow> builder with_static \<Rightarrow> (bool, builder with_static) outcome" where
  "parse_inline buffer st =
     (case st of (section, b) \<Rightarrow>
       if find_chr buffer CHR '';'' = Some 0 then (Inr False, st)
       else
         (let sp = find_chr buffer CHR ''=''; sq = find_chr buffer CHR '';''
          in case sp of
               Some p \<Rightarrow>
                 (let key = substr_n buffer 0 p;
                      v = (case sq of
                             Some q \<Rightarrow> substr_n buffer (p + 1) (sz_sub (sz_sub q p) 1)
                           | None \<Rightarrow> substr_end buffer (p + 1))
                  in case strip key of
                       Inl e \<Rightarrow> (Inl e, st)
                     | Inr key' \<Rightarrow>
                         (case strip v of
                            Inl e \<Rightarrow> (Inl e, st)
                          | Inr v' \<Rightarrow> (Inr True, (section, store b section key' v'))))
             | None \<Rightarrow>
                 (case find_chr buffer CHR ''['' of
                    Some t \<Rightarrow>
                      (Inr True,
                       (substr_n buffer (t + 1)
                          (sz_sub (sz_sub (pos_val (find_chr buffer CHR '']'')) t) 1), b))
                  | None \<Rightarrow> (Inr False, st))))"



text \<open>
  The order in which a range-\<^verbatim>\<open>for\<close> visits an \<^verbatim>\<open>unordered_map\<close> is
  unspecified. A \<open>view\<close> is one such order: the sections with their entries, as visited.
  \<open>iteration vw b\<close> says that \<open>vw\<close> visits every entry of \<open>b\<close> exactly once.
\<close>

type_synonym view = "(string \<times> (string \<times> string) list) list"

definition view_map :: "view \<Rightarrow> builder" where
  "view_map vw = map_of (map (\<lambda>(s, kvs). (s, map_of kvs)) vw)"

definition iteration :: "view \<Rightarrow> builder \<Rightarrow> bool" where
  "iteration vw b \<longleftrightarrow>
     distinct (map fst vw) \<and> (\<forall>(s, kvs) \<in> set vw. distinct (map fst kvs)) \<and> view_map vw = b"


definition all_keys :: "builder \<Rightarrow> view \<Rightarrow> string \<Rightarrow> error + string list" where
  \<comment> \<open>\<^verbatim>\<open>builder.at(section)\<close> throws \<^verbatim>\<open>std::out_of_range\<close> when there is no such
      section, which \<^verbatim>\<open>include\<close> does not exclude for a name with \<^verbatim>\<open>/\<close>\<close>
  "all_keys b vw section =
     (if \<not> include_key b section then Inl KeyNotFound
      else (case map_of vw section of None \<Rightarrow> Inl OutOfRange | Some kvs \<Rightarrow> Inr (map fst kvs)))"

text \<open>
  \<^verbatim>\<open>save_ini_file\<close>: \<open>is_open\<close> tells whether the output file could be opened; the
  result is the text written. \<^verbatim>\<open>std::endl\<close> writes a newline.
\<close>

definition save_ini_file :: "bool \<Rightarrow> view \<Rightarrow> error + string" where
  "save_ini_file is_open vw =
     (if \<not> is_open then Inl FileLoadedError
      else Inr (concat (map (\<lambda>(s, kvs).
              ''['' @ s @ '']'' @ [CHR 0x0A]
              @ concat (map (\<lambda>(k, v). k @ '' = '' @ v @ [CHR 0x0A]) kvs)
              @ [CHR 0x0A]) vw)))"

subsection \<open>The extended parser \<^verbatim>\<open>IniParserX\<close>\<close>

definition get_array_name :: "string \<Rightarrow> string" where
  "get_array_name old_name =
     (case find_str old_name ''[]'' of Some pos \<Rightarrow> substr_n old_name 0 pos | None \<Rightarrow> old_name)"

definition is_array1 :: "parserX \<Rightarrow> string \<Rightarrow> bool" where
  "is_array1 st key = (arrays st (get_array_name key) \<noteq> None)"

definition is_array2 :: "parserX \<Rightarrow> string \<Rightarrow> string \<Rightarrow> bool" where
  "is_array2 st section key = (arrays st (section @ ''/'' @ get_array_name key) \<noteq> None)"

text \<open>\<^verbatim>\<open>arrays.at(k)\<close> and \<^verbatim>\<open>v.at(index)\<close> throw \<^verbatim>\<open>std::out_of_range\<close>.\<close>

definition arrays_at :: "parserX \<Rightarrow> string \<Rightarrow> error + string list" where
  "arrays_at st k = (case arrays st k of None \<Rightarrow> Inl OutOfRange | Some a \<Rightarrow> Inr a)"

definition vector_at :: "string list \<Rightarrow> nat \<Rightarrow> error + string" where
  "vector_at a i = (if i < length a then Inr (a ! i) else Inl OutOfRange)"

definition size_of_array1 :: "parserX \<Rightarrow> string \<Rightarrow> error + nat" where
  "size_of_array1 st key =
     (let real_key = get_array_name key
      in if is_array1 st real_key
         then (case arrays_at st key of Inl e \<Rightarrow> Inl e | Inr a \<Rightarrow> Inr (length a))
         else Inl KeyNotArray)"

definition size_of_array2 :: "parserX \<Rightarrow> string \<Rightarrow> string \<Rightarrow> error + nat" where
  "size_of_array2 st section key =
     (let real_key = get_array_name key; k = section @ ''/'' @ real_key
      in if is_array1 st k
         then (case arrays_at st k of Inl e \<Rightarrow> Inl e | Inr a \<Rightarrow> Inr (length a))
         else Inl KeyNotArray)"

definition value_of_array2 :: "parserX \<Rightarrow> string \<Rightarrow> string \<Rightarrow> nat \<Rightarrow> error + string" where
  "value_of_array2 st section key index =
     (let real_key = get_array_name key; k = section @ ''/'' @ real_key
      in if is_array1 st k
         then (case arrays_at st k of Inl e \<Rightarrow> Inl e | Inr a \<Rightarrow> vector_at a index)
         else Inl KeyNotArray)"

definition value_of_array1 :: "parserX \<Rightarrow> string \<Rightarrow> nat \<Rightarrow> error + string" where
  "value_of_array1 st key index =
     (let real_key = get_array_name key
      in if is_array1 st real_key
         then (case arrays_at st real_key of Inl e \<Rightarrow> Inl e | Inr a \<Rightarrow> vector_at a index)
         else Inl KeyNotArray)"

definition add_array :: "string \<Rightarrow> string \<Rightarrow> string list \<Rightarrow> parserX \<Rightarrow> (unit, parserX) outcome" where
  "add_array section key array st =
     (let real_key = get_array_name key; k = section @ ''/'' @ real_key
      in if \<not> include_key (builder st) (k @ ''[]'') \<and> \<not> include_key (builder st) k
         then (if array = [] then (Inl Undefined, st)
               else (Inr (), st\<lparr>builder := store (builder st) section (key @ ''[]'') (last array),
                                 arrays := (arrays st)(k \<mapsto> array)\<rparr>))
         else (Inl KeyAlreadyExist, st))"

definition remove_array :: "string \<Rightarrow> string \<Rightarrow> parserX \<Rightarrow> (unit, parserX) outcome" where
  "remove_array section key st =
     (let real_key = get_array_name key
      in if is_array2 st section key
         then (let k = section @ ''/'' @ real_key
               in (Inr (), st\<lparr>arrays := (arrays st)(k := None),
                               builder := erase_key (builder st) section (key @ ''[]'')\<rparr>))
         else (Inl KeyNotArray, st))"

definition add_key_X :: "string \<Rightarrow> string \<Rightarrow> string \<Rightarrow> parserX \<Rightarrow> (unit, parserX) outcome" where
  "add_key_X section key v st =
     (if find_str key ''[]'' \<noteq> None then (Inl CanNotArray, st)
      else if \<not> include_key (builder st) section
        then (Inr (), st\<lparr>builder := store (builder st) section key v\<rparr>)
      else if \<not> include_key (builder st) (section @ ''/'' @ key)
        then (Inr (), st\<lparr>builder := store (builder st) section key v\<rparr>)
      else (Inl KeyAlreadyExist, st))"

definition remove_key_X :: "string \<Rightarrow> string \<Rightarrow> parserX \<Rightarrow> (unit, parserX) outcome" where
  "remove_key_X section key st =
     (if include_key (builder st) (section @ ''/'' @ key)
      then (Inr (), st\<lparr>builder := erase_key (builder st) section key\<rparr>)
      else (Inl KeyNotFound, st))"

definition value1_X :: "string \<Rightarrow> parserX \<Rightarrow> (ref, parserX) outcome" where
  "value1_X key st =
     (case find_chr key CHR ''/'' of
        None \<Rightarrow> (Inl KeyNotFound, st)
      | Some x \<Rightarrow>
          if \<not> include_key (builder st) key then (Inl KeyNotFound, st)
          else if is_array1 st key then (Inl KeyIsArray, st)
          else
            (let section = substr_n key 0 x; subsection = substr_end key (x + 1)
             in (Inr (section, subsection),
                 st\<lparr>builder := subscript (builder st) section subsection\<rparr>)))"

definition value2_X :: "string \<Rightarrow> string \<Rightarrow> parserX \<Rightarrow> (ref, parserX) outcome" where
  "value2_X section key st =
     (if \<not> include_key (builder st) section then (Inl KeyNotFound, st)
      else if \<not> include_key (builder st) (section @ ''/'' @ key) then (Inl KeyNotFound, st)
      else if is_array1 st (section @ ''/'' @ key) then (Inl KeyIsArray, st)
      else (Inr (section, key), st\<lparr>builder := subscript (builder st) section key\<rparr>))"

definition op_index_X :: "string \<Rightarrow> parserX \<Rightarrow> (ref, parserX) outcome" where
  "op_index_X key st =
     (case find_chr key CHR ''/'' of
        None \<Rightarrow> (Inl KeyNotFound, st)
      | Some x \<Rightarrow>
          if \<not> include_key (builder st) (substr_n key 0 x) then (Inl KeyNotFound, st)
          else if is_array1 st key then (Inl KeyIsArray, st)
          else
            (let section = substr_n key 0 x; subsection = substr_end key (x + 1)
             in (Inr (section, subsection),
                 st\<lparr>builder := subscript (builder st) section subsection\<rparr>)))"

text \<open>
  \<^verbatim>\<open>m[k].push_back(x)\<close> on a map of vectors; \<^verbatim>\<open>s[0]\<close> of a string, which is the
  terminating zero byte when the string is empty.
\<close>

definition push_back :: "(string \<rightharpoonup> string list) \<Rightarrow> string \<Rightarrow> string \<Rightarrow> (string \<rightharpoonup> string list)" where
  "push_back m k x = m(k \<mapsto> (case m k of None \<Rightarrow> [] | Some a \<Rightarrow> a) @ [x])"

definition char0 :: "string \<Rightarrow> char" where
  "char0 s = (case s of [] \<Rightarrow> CHR 0x00 | c # _ \<Rightarrow> c)"

text \<open>
  \<^verbatim>\<open>IniParserX::parse_inline\<close> has a \<^verbatim>\<open>static\<close> current section of its own.
\<close>

definition store_X :: "string \<Rightarrow> string \<Rightarrow> string \<Rightarrow> parserX \<Rightarrow> parserX" where
  \<comment> \<open>the assignment branch after \<^verbatim>\<open>strip\<close>: \<^verbatim>\<open>point = key.find("[]")\<close>,
      \<^verbatim>\<open>arrays[section + "/" + key.substr(0, point)].push_back(value)\<close> when found, then
      \<^verbatim>\<open>builder[section][key] = value\<close>\<close>
  "store_X section key v x =
     (let x1 = (case find_str key ''[]'' of
                  Some point \<Rightarrow>
                    x\<lparr>arrays := push_back (arrays x) (section @ ''/'' @ substr_n key 0 point) v\<rparr>
                | None \<Rightarrow> x)
      in x1\<lparr>builder := store (builder x1) section key v\<rparr>)"

definition open_section :: "string \<Rightarrow> string \<Rightarrow> parserX \<Rightarrow> parserX with_static" where
  \<comment> \<open>the header branch once \<^verbatim>\<open>tmp_section\<close> is cut out: the new current section and
      the parser with the parent-child relation recorded\<close>
  "open_section section tmp_section x =
     (if char0 tmp_section = CHR ''.''
      then (section @ tmp_section,
            x\<lparr>connection := push_back (connection x) section (substr_end tmp_section 1)\<rparr>)
      else
        (case find_chr tmp_section CHR ''.'' of
           Some point \<Rightarrow>
             (tmp_section,
              x\<lparr>connection := push_back (connection x) (substr_n tmp_section 0 point)
                   (substr_end tmp_section (point + 1))\<rparr>)
         | None \<Rightarrow> (tmp_section, x)))"

definition parse_inline_X :: "string \<Rightarrow> parserX with_static \<Rightarrow> (bool, parserX with_static) outcome" where
  "parse_inline_X buffer st =
     (case st of (section, x) \<Rightarrow>
       if find_chr buffer CHR '';'' = Some 0 then (Inr False, st)
       else
         (let sp = find_chr buffer CHR ''=''; sq = find_chr buffer CHR '';''
          in case sp of
               Some p \<Rightarrow>
                 (let key = substr_n buffer 0 p;
                      v = (case sq of
                             Some q \<Rightarrow> substr_n buffer (p + 1) (sz_sub (sz_sub q p) 1)
                           | None \<Rightarrow> substr_end buffer (p + 1))
                  in case strip key of
                       Inl e \<Rightarrow> (Inl e, st)
                     | Inr key' \<Rightarrow>
                         (case strip v of
                            Inl e \<Rightarrow> (Inl e, st)
                          | Inr v' \<Rightarrow> (Inr True, (section, store_X section key' v' x))))
             | None \<Rightarrow>
                 (case find_chr buffer CHR ''['' of
                    Some t \<Rightarrow>
                      (let tmp_section = substr_n buffer (t + 1)
                             (sz_sub (sz_sub (pos_val (find_chr buffer CHR '']'')) t) 1)
                       in (Inr False, open_section section tmp_section x))
                  | None \<Rightarrow> (Inr False, st))))"

fun parse_lines_X :: "string list \<Rightarrow> parserX with_static \<Rightarrow> (unit, parserX with_static) outcome" where
  "parse_lines_X [] st = (Inr (), st)"
| "parse_lines_X (l # ls) st =
     (case parse_inline_X l st of
        (Inl e, st') \<Rightarrow> (Inl e, st')
      | (Inr _, st') \<Rightarrow> parse_lines_X ls st')"

definition load_ini_file_X :: "string option \<Rightarrow> parserX with_static \<Rightarrow> (bool, parserX with_static) outcome" where
  "load_ini_file_X file st =
     (case file of
        None \<Rightarrow> (Inr False, st)
      | Some content \<Rightarrow>
          (case parse_lines_X (getlines content) st of
             (Inl e, st') \<Rightarrow> (Inl e, st')
           | (Inr _, st') \<Rightarrow> (Inr True, st')))"

text \<open>
  \<^verbatim>\<open>IniParserX::save_ini_file\<close>: for a key that contains \<^verbatim>\<open>[]\<close> the loop
  \<^verbatim>\<open>for (idx = 0; idx < size_of_array(section, key); idx++)\<close> writes one line for each
  element; \<open>text\<close> is what has been written so far.
\<close>

function save_array_loop :: "parserX \<Rightarrow> string \<Rightarrow> string \<Rightarrow> nat \<Rightarrow> string \<Rightarrow> error + string" where
  "save_array_loop st section key idx text =
     (case size_of_array2 st section key of
        Inl e \<Rightarrow> Inl e
      | Inr n \<Rightarrow>
          if idx < n
          then (case value_of_array2 st section key idx of
                  Inl e \<Rightarrow> Inl e
                | Inr v \<Rightarrow> save_array_loop st section key (idx + 1)
                            (text @ key @ '' = '' @ v @ [CHR 0x0A]))
          else Inr text)"
  by pat_completeness auto
termination
  by (relation "measure (\<lambda>(st, section, key, idx, text).
        (case size_of_array2 st section key of Inl e \<Rightarrow> 0 | Inr n \<Rightarrow> n - idx))") auto

declare save_array_loop.simps [simp del]

fun save_keys_X :: "parserX \<Rightarrow> string \<Rightarrow> (string \<times> string) list \<Rightarrow> string \<Rightarrow> error + string" where
  "save_keys_X st section [] text = Inr text"
| "save_keys_X st section ((k, v) # kvs) text =
     (case find_str k ''[]'' of
        Some p \<Rightarrow>
          (case save_array_loop st section k 0 text of
             Inl e \<Rightarrow> Inl e
           | Inr text' \<Rightarrow> save_keys_X st section kvs text')
      | None \<Rightarrow> save_keys_X st section kvs (text @ k @ '' = '' @ v @ [CHR 0x0A]))"

fun save_sections_X :: "parserX \<Rightarrow> view \<Rightarrow> string \<Rightarrow> error + string" where
  "save_sections_X st [] text = Inr text"
| "save_sections_X st ((s, kvs) # vw) text =
     (case save_keys_X st s kvs (text @ ''['' @ s @ '']'' @ [CHR 0x0A]) of
        Inl e \<Rightarrow> Inl e
      | Inr text' \<Rightarrow> save_sections_X st vw (text' @ [CHR 0x0A]))"

definition save_ini_file_X :: "bool \<Rightarrow> parserX \<Rightarrow> view \<Rightarrow> error + string" where
  "save_ini_file_X is_open st vw =
     (if \<not> is_open then Inl FileLoadedError else save_sections_X st vw [])"

subsection \<open>The words of the specification\<close>

text \<open>
  The specification speaks of trimming the space character from both ends, of a comment
  line (first character \<^verbatim>\<open>;\<close>) and of the value text of an assignment line. These are
  written down here as the specification has them, to be compared with what the parser
  computes. \<open>value_text k rest\<close> is the value part of the line \<open>k = rest\<close>, where \<open>k\<close> is
  the text before the first \<^verbatim>\<open>=\<close>: it ends at the first \<^verbatim>\<open>;\<close> of the line when that
  lies after the \<^verbatim>\<open>=\<close>.
\<close>

definition trim_spaces :: "string \<Rightarrow> string" where
  "trim_spaces s =
     rev (dropWhile (\<lambda>c. c = CHR '' '') (rev (dropWhile (\<lambda>c. c = CHR '' '') s)))"

definition blank :: "string \<Rightarrow> bool" where
  "blank s \<longleftrightarrow> (\<forall>c \<in> set s. c = CHR '' '')"

definition is_comment :: "string \<Rightarrow> bool" where
  "is_comment line = (case line of [] \<Rightarrow> False | c # _ \<Rightarrow> c = CHR '';'')"

definition value_text :: "string \<Rightarrow> string \<Rightarrow> string" where
  "value_text k rest =
     (if CHR '';'' \<in> set k then rest else takeWhile (\<lambda>c. c \<noteq> CHR '';'') rest)"

subsection \<open>Reachable states of the extended parser\<close>



subsection \<open>The saved file, in the words of the specification\<close>

text \<open>
  The specification's serialization: for each section the header \<^verbatim>\<open>[section]\<close>, then a
  line \<^verbatim>\<open>key = value\<close> for each key, or one line \<^verbatim>\<open>key = element\<close> for each element
  of the array when the key contains \<^verbatim>\<open>[]\<close>, then an empty line. \<open>join_lines\<close> ends each
  line with a newline.
\<close>

definition elems :: "parserX \<Rightarrow> string \<Rightarrow> string \<Rightarrow> string list" where
  "elems st s k = (case arrays st (s @ ''/'' @ get_array_name k) of None \<Rightarrow> [] | Some es \<Rightarrow> es)"

definition key_lines :: "parserX \<Rightarrow> string \<Rightarrow> string \<times> string \<Rightarrow> string list" where
  "key_lines st s kv =
     (case kv of (k, v) \<Rightarrow>
        (case find_str k ''[]'' of
           None \<Rightarrow> [k @ '' = '' @ v]
         | Some p \<Rightarrow> map (\<lambda>e. k @ '' = '' @ e) (elems st s k)))"

definition section_lines :: "parserX \<Rightarrow> string \<times> (string \<times> string) list \<Rightarrow> string list" where
  "section_lines st skvs =
     (case skvs of (s, kvs) \<Rightarrow> (''['' @ s @ '']'') # concat (map (key_lines st s) kvs) @ [[]])"

definition view_lines :: "parserX \<Rightarrow> view \<Rightarrow> string list" where
  "view_lines st vw = concat (map (section_lines st) vw)"

definition join_lines :: "string list \<Rightarrow> string" where
  "join_lines ls = concat (map (\<lambda>l. l @ [CHR 0x0A]) ls)"

text \<open>
  The documents that survive saving and parsing again. A name or value is \<open>trimmed\<close> when
  it is not empty and neither starts nor ends with a space. A key must not contain
  \<^verbatim>\<open>=\<close> or a newline nor start with \<^verbatim>\<open>;\<close>; a value or array element must not contain
  a newline, and may contain \<^verbatim>\<open>;\<close> only when its key does; a section name must not
  contain \<^verbatim>\<open>=\<close>, \<^verbatim>\<open>]\<close> or a newline nor start with \<^verbatim>\<open>.\<close>; every line is shorter
  than \<open>2^64\<close>. A key that contains \<^verbatim>\<open>[]\<close> must be registered in \<^verbatim>\<open>arrays\<close> with at
  least one element, the last of which is the value of the entry; two such keys must not
  share their array, and \<^verbatim>\<open>arrays\<close> must hold nothing else.
\<close>

definition trimmed :: "string \<Rightarrow> bool" where
  "trimmed s \<longleftrightarrow> s \<noteq> [] \<and> hd s \<noteq> CHR '' '' \<and> last s \<noteq> CHR '' ''"

definition key_ok :: "string \<Rightarrow> bool" where
  "key_ok k \<longleftrightarrow>
     trimmed k \<and> CHR ''='' \<notin> set k \<and> CHR 0x0A \<notin> set k \<and> \<not> is_comment k"

definition value_ok :: "string \<Rightarrow> string \<Rightarrow> bool" where
  "value_ok k v \<longleftrightarrow>
     trimmed v \<and> CHR 0x0A \<notin> set v \<and> (CHR '';'' \<in> set v \<longrightarrow> CHR '';'' \<in> set k)
     \<and> length k + length v + 3 < 2 ^ 64"

definition section_ok :: "string \<Rightarrow> bool" where
  "section_ok s \<longleftrightarrow>
     CHR ''='' \<notin> set s \<and> CHR '']'' \<notin> set s \<and> CHR 0x0A \<notin> set s \<and> char0 s \<noteq> CHR ''.''
     \<and> length s + 2 < 2 ^ 64"

definition entry_ok :: "parserX \<Rightarrow> string \<Rightarrow> string \<times> string \<Rightarrow> bool" where
  "entry_ok st s kv =
     (case kv of (k, v) \<Rightarrow>
        key_ok k \<and>
        (case find_str k ''[]'' of
           None \<Rightarrow> value_ok k v
         | Some p \<Rightarrow>
             (case arrays st (s @ ''/'' @ get_array_name k) of
                None \<Rightarrow> False
              | Some es \<Rightarrow> es \<noteq> [] \<and> last es = v \<and> (\<forall>e \<in> set es. value_ok k e))))"

definition key_names :: "string \<Rightarrow> (string \<times> string) list \<Rightarrow> string list" where
  "key_names s kvs =
     concat (map (\<lambda>(k, v). if find_str k ''[]'' = None then [] else [s @ ''/'' @ get_array_name k])
               kvs)"

definition array_names :: "view \<Rightarrow> string list" where
  "array_names vw = concat (map (\<lambda>(s, kvs). key_names s kvs) vw)"

definition roundtrip_ok :: "parserX \<Rightarrow> view \<Rightarrow> bool" where
  "roundtrip_ok st vw \<longleftrightarrow>
     iteration vw (builder st)
     \<and> (\<forall>(s, kvs) \<in> set vw. section_ok s \<and> kvs \<noteq> [] \<and> (\<forall>kv \<in> set kvs. entry_ok st s kv))
     \<and> distinct (array_names vw)
     \<and> set (array_names vw) = dom (arrays st)"

text \<open>
  What parsing the saved lines does to a parser: the values written for an entry are stored
  one after the other under its key, entry by entry, section by section, each section
  after its header has been opened.
\<close>

definition vals :: "parserX \<Rightarrow> string \<Rightarrow> string \<times> string \<Rightarrow> string list" where
  "vals st s kv =
     (case kv of (k, v) \<Rightarrow> (case find_str k ''[]'' of None \<Rightarrow> [v] | Some p \<Rightarrow> elems st s k))"

definition put_values :: "string \<Rightarrow> string \<Rightarrow> parserX \<Rightarrow> string list \<Rightarrow> parserX" where
  "put_values s k x es = foldl (\<lambda>x e. store_X s k e x) x es"

definition put_keys :: "parserX \<Rightarrow> string \<Rightarrow> parserX \<Rightarrow> (string \<times> string) list \<Rightarrow> parserX" where
  "put_keys st s x kvs = foldl (\<lambda>x kv. put_values s (fst kv) x (vals st s kv)) x kvs"

definition put_sections :: "parserX \<Rightarrow> parserX with_static \<Rightarrow> view \<Rightarrow> parserX with_static" where
  "put_sections st sx vw =
     foldl (\<lambda>sx skvs. (fst skvs, put_keys st (fst skvs) (snd (open_section (fst sx) (fst skvs) (snd sx)))
                                   (snd skvs)))
       sx vw"

section \<open>Properties\<close>

subsection \<open>Searching in strings\<close>

lemma find_chr_None_iff: "find_chr s c = None \<longleftrightarrow> c \<notin> set s"
  by (simp add: find_chr_def)

lemma takeWhile_neq_split: "c \<notin> set a \<Longrightarrow> takeWhile (\<lambda>x. x \<noteq> c) (a @ c # r) = a"
  by (induction a) auto

lemma find_chr_append_first:
  "c \<notin> set a \<Longrightarrow> find_chr (a @ c # r) c = Some (length a)"
  by (simp add: find_chr_def takeWhile_neq_split)

lemma split_at_first: "c \<in> set s \<Longrightarrow> \<exists>a r. s = a @ c # r \<and> c \<notin> set a"
  by (metis split_list_first)

lemma find_chr_SomeD:
  assumes "find_chr s c = Some i"
  shows "\<exists>a r. s = a @ c # r \<and> c \<notin> set a \<and> i = length a"
proof -
  from assms have "c \<in> set s" by (simp add: find_chr_def split: if_splits)
  then have "\<exists>a r. s = a @ c # r \<and> c \<notin> set a" by (rule split_at_first)
  then obtain a' r where s: "s = a' @ c # r" and n: "c \<notin> set a'" by (elim exE conjE)
  from assms have "i = length a'" unfolding s using n by (simp add: find_chr_append_first)
  with s n have "s = a' @ c # r \<and> c \<notin> set a' \<and> i = length a'" by simp
  then show ?thesis by (intro exI)
qed

lemma find_str_SomeD:
  "find_str s pat = Some i \<Longrightarrow> take (length pat) (drop i s) = pat \<and> i \<le> length s"
proof (induction s arbitrary: i)
  case Nil then show ?case by (simp split: if_splits)
next
  case (Cons c cs)
  show ?case
  proof (cases "take (length pat) (c # cs) = pat")
    case True with Cons.prems show ?thesis by simp
  next
    case False
    with Cons.prems have "map_option Suc (find_str cs pat) = Some i" by simp
    then obtain j where j: "find_str cs pat = Some j" and i: "i = Suc j"
      by (cases "find_str cs pat") simp_all
    from Cons.IH [OF j] show ?thesis unfolding i by simp
  qed
qed

lemma find_str_NoneD:
  "find_str s pat = None \<Longrightarrow> s \<noteq> a @ pat @ c"
proof (induction s arbitrary: a)
  case Nil then show ?case by (simp split: if_splits)
next
  case (Cons x xs)
  from Cons.prems have ne: "take (length pat) (x # xs) \<noteq> pat" and rec: "find_str xs pat = None"
    by (simp_all split: if_splits)
  show ?case
  proof (cases a)
    case Nil
    show ?thesis
    proof
      assume "x # xs = a @ pat @ c"
      with Nil have "take (length pat) (x # xs) = pat" by simp
      with ne show False by simp
    qed
  next
    case (Cons y ys)
    have "xs \<noteq> ys @ pat @ c" by (rule Cons.IH [OF rec])
    with Cons show ?thesis by simp
  qed
qed

lemma find_str_None_iff: "find_str s pat = None \<longleftrightarrow> (\<forall>a c. s \<noteq> a @ pat @ c)"
proof
  assume "find_str s pat = None"
  then show "\<forall>a c. s \<noteq> a @ pat @ c" by (intro allI find_str_NoneD)
next
  assume n: "\<forall>a c. s \<noteq> a @ pat @ c"
  show "find_str s pat = None"
  proof (cases "find_str s pat")
    case None then show ?thesis .
  next
    case (Some i)
    from find_str_SomeD [OF Some] have "take i s @ pat @ drop (length pat) (drop i s) = s"
      by (metis append_take_drop_id)
    moreover from n have "s \<noteq> take i s @ pat @ drop (length pat) (drop i s)" by (elim allE)
    ultimately show ?thesis by simp
  qed
qed

lemma include_key_section:
  "CHR ''/'' \<notin> set S \<Longrightarrow> include_key b S = (b S \<noteq> None)"
  by (simp add: include_key_def find_chr_def)

lemma include_key_qualified:
  "CHR ''/'' \<notin> set S \<Longrightarrow>
   include_key b (S @ CHR ''/'' # K) = (case b S of None \<Rightarrow> False | Some m \<Rightarrow> m K \<noteq> None)"
  by (simp add: include_key_def find_chr_append_first substr_n_def substr_end_def)

subsection \<open>The document store\<close>

lemma store_apply: "store b S K V S' = (if S' = S then Some ((at_or_new b S)(K \<mapsto> V)) else b S')"
  by (simp add: store_def)

lemma deref_store: "deref (store b S K V) r = (if r = (S, K) then Some V else deref b r)"
  by (cases r) (auto simp: deref_def store_def at_or_new_def split: option.splits)

lemma subscript_present: "deref b (S, K) = Some V \<Longrightarrow> subscript b S K = b"
  by (auto simp: subscript_def deref_def at_or_new_def Let_def fun_upd_idem split: option.splits)

lemma subscript_absent: "deref b (S, K) = None \<Longrightarrow> subscript b S K = store b S K []"
  by (auto simp: subscript_def deref_def store_def at_or_new_def Let_def split: option.splits)

text \<open>
  C2, as stated, fails for a section name that contains \<^verbatim>\<open>/\<close>: \<^verbatim>\<open>include\<close> splits
  a qualified key at its first \<^verbatim>\<open>/\<close>, so after \<^verbatim>\<open>add_key("a/b", "k", "v")\<close> the key
  \<^verbatim>\<open>a/b/k\<close> is looked up as key \<^verbatim>\<open>b/k\<close> of section \<^verbatim>\<open>a\<close>: it does not exist,
  \<^verbatim>\<open>value("a/b", "k")\<close> throws \<^verbatim>\<open>KeyNotFound\<close>, and adding it again does not throw
  \<^verbatim>\<open>KeyAlreadyExist\<close>.
\<close>

theorem add_key_slash_counterexample:
  "fst (add_key ''a/b'' ''k'' ''v'' Map.empty) = Inr ()
   \<and> \<not> include_key (snd (add_key ''a/b'' ''k'' ''v'' Map.empty)) ''a/b/k''
   \<and> fst (value2 ''a/b'' ''k'' (snd (add_key ''a/b'' ''k'' ''v'' Map.empty))) = Inl KeyNotFound
   \<and> fst (add_key ''a/b'' ''k'' ''w'' (snd (add_key ''a/b'' ''k'' ''v'' Map.empty))) = Inr ()"
  by (simp add: add_key_def include_key_def find_chr_def value2_def store_def
      substr_n_def substr_end_def at_or_new_def)

text \<open>
  C2 (amended): for every section \<open>S\<close> that contains no \<^verbatim>\<open>/\<close>, every key \<open>K\<close> and value
  \<open>V\<close>, \<^verbatim>\<open>add_key(S, K, V)\<close> throws \<^verbatim>\<open>CanNotArray\<close> if \<open>K\<close> contains \<^verbatim>\<open>[]\<close>,
  otherwise throws \<^verbatim>\<open>KeyAlreadyExist\<close> if \<^verbatim>\<open>S/K\<close> exists (both leave the document as it
  was), and otherwise stores \<open>V\<close>, creating the section when needed; after a successful call
  \<^verbatim>\<open>include(S)\<close> and \<^verbatim>\<open>include(S/K)\<close> hold and \<^verbatim>\<open>value(S, K)\<close> refers to \<open>V\<close>.
\<close>

theorem add_key_contract:
  assumes "CHR ''/'' \<notin> set S"
  shows "add_key S K V b =
           (if (\<exists>a c. K = a @ ''[]'' @ c) then (Inl CanNotArray, b)
            else if include_key b (S @ ''/'' @ K) then (Inl KeyAlreadyExist, b)
            else (Inr (), store b S K V))
         \<and> (fst (add_key S K V b) = Inr () \<longrightarrow>
              include_key (snd (add_key S K V b)) S
              \<and> include_key (snd (add_key S K V b)) (S @ ''/'' @ K)
              \<and> value2 S K (snd (add_key S K V b)) = (Inr (S, K), snd (add_key S K V b))
              \<and> deref (snd (add_key S K V b)) (S, K) = Some V)"
proof -
  have arr: "(find_str K ''[]'' \<noteq> None) = (\<exists>a c. K = a @ ''[]'' @ c)"
    by (simp add: find_str_None_iff)
  have absent: "\<not> include_key b S \<Longrightarrow> \<not> include_key b (S @ ''/'' @ K)"
    using assms by (simp add: include_key_section include_key_qualified)
  have eq: "add_key S K V b =
           (if (\<exists>a c. K = a @ ''[]'' @ c) then (Inl CanNotArray, b)
            else if include_key b (S @ ''/'' @ K) then (Inl KeyAlreadyExist, b)
            else (Inr (), store b S K V))"
    unfolding add_key_def arr using absent by simp
  have inS: "include_key (store b S K V) S"
    using assms by (simp add: include_key_section store_apply)
  have inK: "include_key (store b S K V) (S @ ''/'' @ K)"
    using assms by (simp add: include_key_qualified store_apply)
  have d: "deref (store b S K V) (S, K) = Some V"
    by (simp add: deref_store)
  have v: "value2 S K (store b S K V) = (Inr (S, K), store b S K V)"
    using inS inK d by (simp add: value2_def subscript_present)
  have post: "fst (add_key S K V b) = Inr () \<longrightarrow>
              include_key (snd (add_key S K V b)) S
              \<and> include_key (snd (add_key S K V b)) (S @ ''/'' @ K)
              \<and> value2 S K (snd (add_key S K V b)) = (Inr (S, K), snd (add_key S K V b))
              \<and> deref (snd (add_key S K V b)) (S, K) = Some V"
    unfolding eq using inS inK v d by simp
  from eq post show ?thesis by (rule conjI)
qed

theorem add_key_contract_witness:
  "CHR ''/'' \<notin> set ''Profile''
   \<and> fst (add_key ''Profile'' ''Name'' ''John'' Map.empty) = Inr ()
   \<and> fst (value2 ''Profile'' ''Name'' (snd (add_key ''Profile'' ''Name'' ''John'' Map.empty)))
       = Inr (''Profile'', ''Name'')
   \<and> deref (snd (add_key ''Profile'' ''Name'' ''John'' Map.empty)) (''Profile'', ''Name'')
       = Some ''John''"
proof -
  have h: "CHR ''/'' \<notin> set ''Profile''" by simp
  have ok: "fst (add_key ''Profile'' ''Name'' ''John'' Map.empty) = Inr ()"
    by (simp add: add_key_def include_key_def find_chr_def)
  have "fst (add_key ''Profile'' ''Name'' ''John'' Map.empty) = Inr () \<longrightarrow>
      include_key (snd (add_key ''Profile'' ''Name'' ''John'' Map.empty)) ''Profile''
      \<and> include_key (snd (add_key ''Profile'' ''Name'' ''John'' Map.empty)) (''Profile'' @ ''/'' @ ''Name'')
      \<and> value2 ''Profile'' ''Name'' (snd (add_key ''Profile'' ''Name'' ''John'' Map.empty))
          = (Inr (''Profile'', ''Name''), snd (add_key ''Profile'' ''Name'' ''John'' Map.empty))
      \<and> deref (snd (add_key ''Profile'' ''Name'' ''John'' Map.empty)) (''Profile'', ''Name'')
          = Some ''John''"
    using add_key_contract [OF h, of "''Name''" "''John''" Map.empty] by (rule conjunct2)
  with ok h show ?thesis by simp
qed

text \<open>Definitions unfolded to evaluate the operations on concrete documents.\<close>

lemmas eval_defs =
  add_array_def remove_array_def remove_key_X_def add_key_X_def value2_X_def value1_X_def
  op_index_X_def is_array1_def is_array2_def get_array_name_def size_of_array1_def
  size_of_array2_def value_of_array1_def value_of_array2_def arrays_at_def vector_at_def
  store_X_def open_section_def push_back_def char0_def
  include_key_def find_chr_def store_def erase_key_def at_or_new_def substr_n_def
  substr_end_def deref_def subscript_def emptyX_def Let_def

subsection \<open>\<^verbatim>\<open>operator[]\<close>\<close>

lemma find_chr_not_mem: "c \<notin> set s \<Longrightarrow> find_chr s c = None"
  by (simp add: find_chr_def)

lemma op_index_no_slash:
  "CHR ''/'' \<notin> set key \<Longrightarrow> op_index key b = (Inl KeyNotFound, b)"
  by (simp add: op_index_def find_chr_not_mem)

lemma op_index_qualified:
  assumes "CHR ''/'' \<notin> set S"
  shows "op_index (S @ ''/'' @ K) b =
     (if b S = None then (Inl KeyNotFound, b)
      else if deref b (S, K) = None then (Inr (S, K), store b S K [])
      else (Inr (S, K), b))"
proof -
  have f: "find_chr (S @ ''/'' @ K) CHR ''/'' = Some (length S)"
    using assms by (simp add: find_chr_append_first)
  show ?thesis
    unfolding op_index_def f using assms
    by (auto simp: include_key_section substr_n_def substr_end_def deref_def store_def
        subscript_def at_or_new_def Let_def fun_upd_idem split: option.splits)
qed

lemma op_index_X_no_slash:
  "CHR ''/'' \<notin> set key \<Longrightarrow> op_index_X key st = (Inl KeyNotFound, st)"
  by (simp add: op_index_X_def find_chr_not_mem)

lemma op_index_X_qualified:
  assumes "CHR ''/'' \<notin> set S"
  shows "op_index_X (S @ ''/'' @ K) st =
     (if builder st S = None then (Inl KeyNotFound, st)
      else if is_array1 st (S @ ''/'' @ K) then (Inl KeyIsArray, st)
      else if deref (builder st) (S, K) = None
        then (Inr (S, K), st\<lparr>builder := store (builder st) S K []\<rparr>)
      else (Inr (S, K), st))"
proof -
  have f: "find_chr (S @ ''/'' @ K) CHR ''/'' = Some (length S)"
    using assms by (simp add: find_chr_append_first)
  show ?thesis
    unfolding op_index_X_def f using assms
    by (auto simp: include_key_section substr_n_def substr_end_def deref_def store_def
        subscript_def at_or_new_def Let_def fun_upd_idem split: option.splits)
qed

text \<open>
  C10, as stated, fails for \<^verbatim>\<open>IniParserX::operator[]\<close>: after
  \<^verbatim>\<open>add_array("S", "K", {"a"})\<close> section \<^verbatim>\<open>S\<close> exists and has no key \<^verbatim>\<open>K\<close>, yet
  \<^verbatim>\<open>ini["S/K"]\<close> throws \<^verbatim>\<open>KeyIsArray\<close> instead of inserting the key.
\<close>

theorem op_index_X_array_counterexample:
  "builder (snd (add_array ''S'' ''K'' [''a''] emptyX)) ''S'' \<noteq> None
   \<and> deref (builder (snd (add_array ''S'' ''K'' [''a''] emptyX))) (''S'', ''K'') = None
   \<and> fst (op_index_X ''S/K'' (snd (add_array ''S'' ''K'' [''a''] emptyX))) = Inl KeyIsArray"
  by (simp add: eval_defs)

text \<open>
  C10 (amended): \<^verbatim>\<open>operator[]\<close> of both parsers throws \<^verbatim>\<open>KeyNotFound\<close> exactly when
  the argument contains no \<^verbatim>\<open>/\<close> or the section before its first \<^verbatim>\<open>/\<close> is absent.
  Otherwise the extended parser throws \<^verbatim>\<open>KeyIsArray\<close> when the argument is registered
  as an array. In every remaining case the call succeeds and returns a reference to the entry:
  an absent key is first inserted into the section with the empty string as its value, an
  existing key is left as it is.
\<close>

theorem op_index_contract:
  "(CHR ''/'' \<notin> set key \<longrightarrow>
      op_index key b = (Inl KeyNotFound, b) \<and> op_index_X key st = (Inl KeyNotFound, st))
   \<and> (CHR ''/'' \<notin> set S \<longrightarrow>
      op_index (S @ ''/'' @ K) b =
        (if b S = None then (Inl KeyNotFound, b)
         else if deref b (S, K) = None then (Inr (S, K), store b S K [])
         else (Inr (S, K), b))
      \<and> op_index_X (S @ ''/'' @ K) st =
        (if builder st S = None then (Inl KeyNotFound, st)
         else if is_array1 st (S @ ''/'' @ K) then (Inl KeyIsArray, st)
         else if deref (builder st) (S, K) = None
           then (Inr (S, K), st\<lparr>builder := store (builder st) S K []\<rparr>)
         else (Inr (S, K), st))
      \<and> deref (store b S K []) (S, K) = Some [])"
  using op_index_no_slash op_index_X_no_slash op_index_qualified op_index_X_qualified
  by (simp add: deref_store)

theorem op_index_contract_witness:
  "CHR ''/'' \<notin> set ''nokey'' \<and> CHR ''/'' \<notin> set ''Config''
   \<and> op_index ''nokey'' [''Config'' \<mapsto> [''Theme'' \<mapsto> ''Dark'']]
       = (Inl KeyNotFound, [''Config'' \<mapsto> [''Theme'' \<mapsto> ''Dark'']])
   \<and> fst (op_index ''Config/save_passwd'' [''Config'' \<mapsto> [''Theme'' \<mapsto> ''Dark'']])
       = Inr (''Config'', ''save_passwd'')
   \<and> deref (snd (op_index ''Config/save_passwd'' [''Config'' \<mapsto> [''Theme'' \<mapsto> ''Dark'']]))
        (''Config'', ''save_passwd'') = Some []
   \<and> fst (op_index_X ''Config/save_passwd'' emptyX) = Inl KeyNotFound"
proof -
  have h1: "CHR ''/'' \<notin> set ''nokey''" and h2: "CHR ''/'' \<notin> set ''Config''"
    by simp_all
  note t = op_index_contract [of "''nokey''" "[''Config'' \<mapsto> [''Theme'' \<mapsto> ''Dark'']]" emptyX
      "''Config''" "''save_passwd''"]
  from t h1 have a: "op_index ''nokey'' [''Config'' \<mapsto> [''Theme'' \<mapsto> ''Dark'']]
       = (Inl KeyNotFound, [''Config'' \<mapsto> [''Theme'' \<mapsto> ''Dark'']])"
    by blast
  from t h2 have b: "op_index (''Config'' @ ''/'' @ ''save_passwd'') [''Config'' \<mapsto> [''Theme'' \<mapsto> ''Dark'']] =
        (if [''Config'' \<mapsto> [''Theme'' \<mapsto> ''Dark'']] ''Config'' = None
         then (Inl KeyNotFound, [''Config'' \<mapsto> [''Theme'' \<mapsto> ''Dark'']])
         else if deref [''Config'' \<mapsto> [''Theme'' \<mapsto> ''Dark'']] (''Config'', ''save_passwd'') = None
           then (Inr (''Config'', ''save_passwd''),
                 store [''Config'' \<mapsto> [''Theme'' \<mapsto> ''Dark'']] ''Config'' ''save_passwd'' [])
         else (Inr (''Config'', ''save_passwd''), [''Config'' \<mapsto> [''Theme'' \<mapsto> ''Dark'']]))"
    by blast
  from t h2 have c: "op_index_X (''Config'' @ ''/'' @ ''save_passwd'') emptyX =
        (if builder emptyX ''Config'' = None then (Inl KeyNotFound, emptyX)
         else if is_array1 emptyX (''Config'' @ ''/'' @ ''save_passwd'') then (Inl KeyIsArray, emptyX)
         else if deref (builder emptyX) (''Config'', ''save_passwd'') = None
           then (Inr (''Config'', ''save_passwd''),
                 emptyX\<lparr>builder := store (builder emptyX) ''Config'' ''save_passwd'' []\<rparr>)
         else (Inr (''Config'', ''save_passwd''), emptyX))"
    by blast
  from b have b1: "fst (op_index ''Config/save_passwd'' [''Config'' \<mapsto> [''Theme'' \<mapsto> ''Dark'']])
       = Inr (''Config'', ''save_passwd'')"
    and b2: "deref (snd (op_index ''Config/save_passwd'' [''Config'' \<mapsto> [''Theme'' \<mapsto> ''Dark'']]))
        (''Config'', ''save_passwd'') = Some []"
    by (simp_all add: deref_def store_def at_or_new_def)
  from c have c1: "fst (op_index_X ''Config/save_passwd'' emptyX) = Inl KeyNotFound"
    by (simp add: emptyX_def)
  from h1 h2 a b1 b2 c1 show ?thesis by blast
qed

subsection \<open>Arrays through the scalar interface\<close>

text \<open>
  C3: the code does not do what the claim (and the documentation of \<^verbatim>\<open>value\<close>, "KeyIsArray:
  thrown when the specified key is an array") says. \<^verbatim>\<open>add_array("S", "K", ...)\<close> stores the
  entry under the name \<^verbatim>\<open>K[]\<close>; \<^verbatim>\<open>value("S", "K")\<close> tests \<^verbatim>\<open>include("S/K")\<close> before
  \<^verbatim>\<open>is_array\<close> and throws \<^verbatim>\<open>KeyNotFound\<close>, although \<^verbatim>\<open>is_array("S", "K")\<close> holds.
  Only the suffixed name reaches the \<^verbatim>\<open>KeyIsArray\<close> test.
\<close>

theorem value_of_added_array_KeyNotFound:
  "fst (add_array ''S'' ''K'' [''a''] emptyX) = Inr ()
   \<and> is_array2 (snd (add_array ''S'' ''K'' [''a''] emptyX)) ''S'' ''K''
   \<and> fst (value2_X ''S'' ''K'' (snd (add_array ''S'' ''K'' [''a''] emptyX))) = Inl KeyNotFound
   \<and> fst (value2_X ''S'' ''K[]'' (snd (add_array ''S'' ''K'' [''a''] emptyX))) = Inl KeyIsArray"
  by (simp add: eval_defs)

text \<open>
  C4: \<^verbatim>\<open>size_of_array(key)\<close> tests the stripped name but then reads
  \<^verbatim>\<open>arrays.at(key)\<close> with the name as given, so with the \<^verbatim>\<open>[]\<close> suffix it throws
  \<^verbatim>\<open>std::out_of_range\<close> for a registered array. The two-argument overload and
  \<^verbatim>\<open>value_of_array(key, index)\<close> read the stripped name.
\<close>

theorem size_of_array1_suffix_OutOfRange:
  "arrays (snd (add_array ''S'' ''K'' [''a'', ''b''] emptyX)) ''S/K'' = Some [''a'', ''b'']
   \<and> size_of_array1 (snd (add_array ''S'' ''K'' [''a'', ''b''] emptyX)) ''S/K[]'' = Inl OutOfRange
   \<and> size_of_array1 (snd (add_array ''S'' ''K'' [''a'', ''b''] emptyX)) ''S/K'' = Inr 2
   \<and> size_of_array2 (snd (add_array ''S'' ''K'' [''a'', ''b''] emptyX)) ''S'' ''K[]'' = Inr 2
   \<and> value_of_array1 (snd (add_array ''S'' ''K'' [''a'', ''b''] emptyX)) ''S/K[]'' 1 = Inr ''b''"
  by (simp add: eval_defs)

text \<open>
  C8: \<^verbatim>\<open>IniParserX::remove_key\<close> erases the entry \<^verbatim>\<open>K[]\<close> of the document and leaves
  \<^verbatim>\<open>arrays\<close> as it is, so the array stays registered without its entry. In the other
  direction \<^verbatim>\<open>remove_array("S", "K[]")\<close> unregisters the array and erases the name
  \<^verbatim>\<open>K[][]\<close>, so the entry \<^verbatim>\<open>K[]\<close> stays in the document.
\<close>

theorem remove_key_X_leaves_array:
  "fst (remove_key_X ''S'' ''K[]'' (snd (add_array ''S'' ''K'' [''a''] emptyX))) = Inr ()
   \<and> arrays (snd (remove_key_X ''S'' ''K[]'' (snd (add_array ''S'' ''K'' [''a''] emptyX)))) ''S/K''
       = Some [''a'']
   \<and> builder (snd (remove_key_X ''S'' ''K[]'' (snd (add_array ''S'' ''K'' [''a''] emptyX)))) ''S''
       = None
   \<and> fst (remove_array ''S'' ''K[]'' (snd (add_array ''S'' ''K'' [''a''] emptyX))) = Inr ()
   \<and> arrays (snd (remove_array ''S'' ''K[]'' (snd (add_array ''S'' ''K'' [''a''] emptyX)))) ''S/K''
       = None
   \<and> deref (builder (snd (remove_array ''S'' ''K[]'' (snd (add_array ''S'' ''K'' [''a''] emptyX)))))
        (''S'', ''K[]'') = Some ''a''"
  by (simp add: eval_defs)

subsection \<open>\<^verbatim>\<open>strip\<close>\<close>

lemma strip_blank: "blank s \<Longrightarrow> strip s = Inl OutOfRange"
  by (simp add: strip_def blank_def find_first_not_of_def substr_def)

lemma mod_wrap_ge: "b \<le> a \<Longrightarrow> a < N \<Longrightarrow> (N + a - b) mod N = a - (b::nat)"
proof -
  assume le: "b \<le> a" and lt: "a < N"
  from le have "(N + a - b) mod N = (N + (a - b)) mod N" by simp
  also have "\<dots> = (a - b) mod N" by simp
  also from lt have "\<dots> = a - b" by simp
  finally show ?thesis .
qed

lemma mod_wrap_lt: "a < b \<Longrightarrow> b \<le> N \<Longrightarrow> (N + a - b) mod N = N + a - (b::nat)"
  by simp

lemma sz_sub_le: "b \<le> a \<Longrightarrow> a < 2 ^ 64 \<Longrightarrow> sz_sub a b = a - b"
  unfolding sz_sub_def by (rule mod_wrap_ge)

lemma sz_sub_wrap: "a < b \<Longrightarrow> b \<le> 2 ^ 64 \<Longrightarrow> sz_sub a b = 2 ^ 64 + a - b"
  unfolding sz_sub_def by (rule mod_wrap_lt)

lemma length_takeWhile_lt: "x \<in> set xs \<Longrightarrow> \<not> P x \<Longrightarrow> length (takeWhile P xs) < length xs"
  by (induction xs) auto

lemma take_rev_dropWhile:
  "take (length r - length (takeWhile P (rev r))) r = rev (dropWhile P (rev r))"
proof -
  have e: "takeWhile P (rev r) @ dropWhile P (rev r) = rev r" by simp
  have "rev (takeWhile P (rev r) @ dropWhile P (rev r)) = rev (rev r)"
    by (simp only: e)
  then have r: "rev (dropWhile P (rev r)) @ rev (takeWhile P (rev r)) = r"
    by (simp only: rev_append rev_rev_ident)
  have "length (takeWhile P (rev r) @ dropWhile P (rev r)) = length (rev r)"
    by (simp only: e)
  then have l: "length r - length (takeWhile P (rev r)) = length (rev (dropWhile P (rev r)))"
    by (simp only: length_append length_rev)
  have "take (length (rev (dropWhile P (rev r))))
          (rev (dropWhile P (rev r)) @ rev (takeWhile P (rev r))) = rev (dropWhile P (rev r))"
    by simp
  then show ?thesis by (simp only: l r)
qed

lemma strip_nonblank:
  assumes nb: "\<not> blank s" and len: "length s < 2 ^ 64"
  shows "strip s = Inr (trim_spaces s)"
proof -
  define P where "P = (\<lambda>c. c = CHR '' '')"
  define a where "a = takeWhile P s"
  define r where "r = dropWhile P s"
  from nb obtain x where x: "x \<in> set s" "\<not> P x" by (auto simp: blank_def P_def)
  have s: "s = a @ r" by (simp add: a_def r_def)
  have "x \<notin> set a"
    using x(2) unfolding a_def by (auto dest: set_takeWhileD)
  with x(1) have xr: "x \<in> set r"
    unfolding s by simp
  have st: "find_first_not_of s CHR '' '' = Some (length a)"
    using nb by (simp add: find_first_not_of_def blank_def a_def P_def)
  have ed: "find_last_not_of s CHR '' '' = Some (length s - 1 - length (takeWhile P (rev s)))"
    using nb by (simp add: find_last_not_of_def blank_def P_def)
  have tw: "takeWhile P (rev s) = takeWhile P (rev r)"
    unfolding s using xr x(2) by (simp add: takeWhile_append1)
  have le: "length (takeWhile P (rev r)) < length r"
    using length_takeWhile_lt [of x "rev r" P] xr x(2) by simp
  let ?lz = "length (takeWhile P (rev r))"
  have edv: "length s - 1 - ?lz = length a + (length r - ?lz - 1)"
    using le s by simp
  have cnt: "(sz_sub (length s - 1 - ?lz) (length a) + 1) mod 2 ^ 64 = length r - ?lz"
  proof -
    have "length s - 1 - ?lz < 2 ^ 64" using len by simp
    moreover have "length a \<le> length s - 1 - ?lz" using edv by simp
    ultimately have "sz_sub (length s - 1 - ?lz) (length a) = length r - ?lz - 1"
      using edv by (simp add: sz_sub_le)
    moreover have "length r - ?lz - 1 + 1 = length r - ?lz" using le by simp
    moreover have "length r - ?lz < 2 ^ 64" using len s by simp
    ultimately show ?thesis by simp
  qed
  have "strip s = Inr (take (length r - ?lz) (drop (length a) s))"
    unfolding strip_def st ed tw Let_def using cnt s
    by (simp add: substr_def pos_val_def substr_n_def)
  also have "drop (length a) s = r" using s by simp
  also have "take (length r - ?lz) r = rev (dropWhile P (rev r))" by (rule take_rev_dropWhile)
  finally show ?thesis by (simp add: trim_spaces_def r_def P_def)
qed

subsection \<open>One line of input\<close>

lemma find_chr_zero_iff: "find_chr s CHR '';'' = Some 0 \<longleftrightarrow> is_comment s"
proof (cases s)
  case Nil
  then show ?thesis by (simp add: find_chr_def is_comment_def)
next
  case (Cons c cs)
  then show ?thesis by (simp add: find_chr_def is_comment_def)
qed

lemma is_comment_append: "CHR '';'' \<noteq> c \<Longrightarrow> is_comment (k @ c # rest) = is_comment k"
  by (cases k) (simp_all add: is_comment_def)

lemma assign_key:
  "substr_n (k @ CHR ''='' # rest) 0 (length k) = k"
  by (simp add: substr_n_def)

lemma assign_value:
  assumes len: "length (k @ CHR ''='' # rest) < 2 ^ 64"
  shows "(case find_chr (k @ CHR ''='' # rest) CHR '';'' of
            Some q \<Rightarrow> substr_n (k @ CHR ''='' # rest) (length k + 1)
                        (sz_sub (sz_sub q (length k)) 1)
          | None \<Rightarrow> substr_end (k @ CHR ''='' # rest) (length k + 1))
         = value_text k rest"
proof (cases "CHR '';'' \<in> set k")
  case True
  then have "\<exists>a r. k = a @ CHR '';'' # r \<and> CHR '';'' \<notin> set a" by (rule split_at_first)
  then obtain a r where k: "k = a @ CHR '';'' # r" and na: "CHR '';'' \<notin> set a"
    by (elim exE conjE)
  have f: "find_chr (k @ CHR ''='' # rest) CHR '';'' = Some (length a)"
    unfolding k using find_chr_append_first [OF na, of "r @ CHR ''='' # rest"] by simp
  have lt: "length a < length k" unfolding k by simp
  have kb: "length k < 2 ^ 64" using len by simp
  then have kb': "length k \<le> 2 ^ 64" by simp
  have w1: "sz_sub (length a) (length k) = 2 ^ 64 + length a - length k"
    using lt kb' by (rule sz_sub_wrap)
  have "1 \<le> 2 ^ 64 + length a - length k" using kb lt by linarith
  moreover have "2 ^ 64 + length a - length k < (2::nat) ^ 64" using lt kb by linarith
  ultimately have w2: "sz_sub (2 ^ 64 + length a - length k) 1 = 2 ^ 64 + length a - length k - 1"
    by (rule sz_sub_le)
  have "length k + 1 + length rest < 2 ^ 64" using len by simp
  then have big: "length rest \<le> 2 ^ 64 + length a - length k - 1" by linarith
  have cnt: "length rest \<le> sz_sub (sz_sub (length a) (length k)) 1"
    using big by (simp only: w1 w2)
  show ?thesis
    unfolding f value_text_def using True cnt
    by (simp add: substr_n_def)
next
  case False
  note nk = this
  show ?thesis
  proof (cases "CHR '';'' \<in> set rest")
    case True
    then have "\<exists>a r. rest = a @ CHR '';'' # r \<and> CHR '';'' \<notin> set a" by (rule split_at_first)
    then obtain a r where rest: "rest = a @ CHR '';'' # r" and na: "CHR '';'' \<notin> set a"
      by (elim exE conjE)
    have n2: "CHR '';'' \<notin> set (k @ CHR ''='' # a)" using nk na by simp
    have f: "find_chr (k @ CHR ''='' # rest) CHR '';'' = Some (length k + 1 + length a)"
      unfolding rest using find_chr_append_first [OF n2, of r] by simp
    have "length k + 1 + length a < 2 ^ 64" using len unfolding rest by simp
    then have w1: "sz_sub (length k + 1 + length a) (length k) = 1 + length a"
      by (simp add: sz_sub_le)
    have "1 + length a < 2 ^ 64" using len unfolding rest by simp
    then have w2: "sz_sub (1 + length a) 1 = length a"
      by (simp add: sz_sub_le)
    have tw: "takeWhile (\<lambda>c. c \<noteq> CHR '';'') rest = a"
      unfolding rest using na by (rule takeWhile_neq_split)
    have cnt: "sz_sub (sz_sub (length k + 1 + length a) (length k)) 1 = length a"
      by (simp only: w1 w2)
    show ?thesis
      unfolding f value_text_def tw using nk cnt
      by (simp add: substr_n_def rest)
  next
    case False
    then have tw: "takeWhile (\<lambda>c. c \<noteq> CHR '';'') rest = rest" by auto
    have f: "find_chr (k @ CHR ''='' # rest) CHR '';'' = None"
      using nk False by (simp add: find_chr_def)
    show ?thesis
      unfolding f value_text_def tw using nk by (simp add: substr_end_def)
  qed
qed

lemma strip_cases:
  "length s < 2 ^ 64 \<Longrightarrow> strip s = (if blank s then Inl OutOfRange else Inr (trim_spaces s))"
  by (simp add: strip_blank strip_nonblank)

lemma length_value_text: "length (value_text k rest) \<le> length rest"
  by (simp add: value_text_def length_takeWhile_le)

lemma parse_inline_assign:
  assumes eq: "CHR ''='' \<notin> set k" and len: "length (k @ CHR ''='' # rest) < 2 ^ 64"
  shows "parse_inline (k @ CHR ''='' # rest) (sec, b) =
     (if is_comment k then (Inr False, (sec, b))
      else if blank k \<or> blank (value_text k rest) then (Inl OutOfRange, (sec, b))
      else (Inr True, (sec, store b sec (trim_spaces k) (trim_spaces (value_text k rest)))))"
proof -
  have sp: "find_chr (k @ CHR ''='' # rest) CHR ''='' = Some (length k)"
    using eq by (rule find_chr_append_first)
  have c: "(find_chr (k @ CHR ''='' # rest) CHR '';'' = Some 0) = is_comment k"
    by (simp add: find_chr_zero_iff is_comment_append)
  have lk: "length k < 2 ^ 64" using len by simp
  have lv: "length (value_text k rest) < 2 ^ 64"
    using len length_value_text [of k rest] by simp
  show ?thesis
    unfolding parse_inline_def c sp Let_def
    by (simp add: assign_key assign_value [OF len] strip_cases [OF lk] strip_cases [OF lv])
qed


lemma parse_inline_X_assign:
  assumes eq: "CHR ''='' \<notin> set k" and len: "length (k @ CHR ''='' # rest) < 2 ^ 64"
  shows "parse_inline_X (k @ CHR ''='' # rest) (sec, x) =
     (if is_comment k then (Inr False, (sec, x))
      else if blank k \<or> blank (value_text k rest) then (Inl OutOfRange, (sec, x))
      else (Inr True, (sec, store_X sec (trim_spaces k) (trim_spaces (value_text k rest)) x)))"
proof -
  have sp: "find_chr (k @ CHR ''='' # rest) CHR ''='' = Some (length k)"
    using eq by (rule find_chr_append_first)
  have c: "(find_chr (k @ CHR ''='' # rest) CHR '';'' = Some 0) = is_comment k"
    by (simp add: find_chr_zero_iff is_comment_append)
  have lk: "length k < 2 ^ 64" using len by simp
  have lv: "length (value_text k rest) < 2 ^ 64"
    using len length_value_text [of k rest] by simp
  show ?thesis
    unfolding parse_inline_X_def c sp Let_def
    by (simp add: assign_key assign_value [OF len] strip_cases [OF lk] strip_cases [OF lv])
qed








lemmas spec_defs = is_comment_def blank_def value_text_def trim_spaces_def

subsection \<open>Assignment lines\<close>



text \<open>
  C5: the code does not do what the claim says on two kinds of assignment line. On the line
  \<^verbatim>\<open>key=\<close> the claim has the key \<^verbatim>\<open>key\<close> stored with the text after the \<^verbatim>\<open>=\<close>,
  trimmed, as its value; \<^verbatim>\<open>strip\<close> calls \<^verbatim>\<open>substr\<close> at \<^verbatim>\<open>npos\<close> for that text,
  \<^verbatim>\<open>std::out_of_range\<close> leaves \<^verbatim>\<open>parse_inline\<close>, and nothing is stored. On the line
  \<^verbatim>\<open>a;b=c;d\<close> the claim has the value cut at the \<^verbatim>\<open>;\<close> after the \<^verbatim>\<open>=\<close>, which
  gives \<^verbatim>\<open>c\<close>; the parser looks for the first \<^verbatim>\<open>;\<close> of the whole line, finds it
  before the \<^verbatim>\<open>=\<close>, the length \<^verbatim>\<open>sq - sp - 1\<close> wraps around, and the value
  \<^verbatim>\<open>c;d\<close> is stored.
\<close>

theorem assignment_line_failing_inputs:
  "parse_inline ''key='' (''S'', Map.empty) = (Inl OutOfRange, (''S'', Map.empty))
   \<and> parse_inline ''a;b=c;d'' (''S'', Map.empty)
       = (Inr True, (''S'', store Map.empty ''S'' ''a;b'' ''c;d''))
   \<and> deref (store Map.empty ''S'' ''a;b'' ''c;d'') (''S'', ''a;b'') = Some ''c;d''"
  by (simp add: parse_inline_def find_chr_def Let_def substr_n_def substr_end_def pos_val_def
        sz_sub_def strip_def find_first_not_of_def find_last_not_of_def substr_def
        deref_store)

text \<open>
  Where neither happens, the parser stores what is described: on a line with no \<^verbatim>\<open>;\<close>
  before its first \<^verbatim>\<open>=\<close>, whose text before the \<^verbatim>\<open>=\<close> and whose text between the
  \<^verbatim>\<open>=\<close> and the next \<^verbatim>\<open>;\<close> (or the end of the line) are not blank, both are stored
  with the spaces at their ends removed.
\<close>

lemma parse_inline_plain_assignment:
  assumes eq: "CHR ''='' \<notin> set k"
    and nc: "\<not> is_comment (k @ ''='' @ rest)"
    and len: "length (k @ ''='' @ rest) < 2 ^ 64"
    and semi: "CHR '';'' \<notin> set k"
    and nbk: "\<not> blank k" and nbv: "\<not> blank (takeWhile (\<lambda>c. c \<noteq> CHR '';'') rest)"
  shows "parse_inline (k @ ''='' @ rest) (sec, b) =
           (Inr True, (sec, store b sec (trim_spaces k)
                              (trim_spaces (takeWhile (\<lambda>c. c \<noteq> CHR '';'') rest))))"
proof -
  from nc have nck: "\<not> is_comment k" by (simp add: is_comment_append)
  from len have len': "length (k @ CHR ''='' # rest) < 2 ^ 64" by simp
  from semi have vt: "value_text k rest = takeWhile (\<lambda>c. c \<noteq> CHR '';'') rest"
    by (simp add: value_text_def)
  show ?thesis
    using parse_inline_assign [OF eq len', of sec b] nck nbk nbv by (simp add: vt)
qed

lemma parse_inline_plain_assignment_example:
  "parse_inline ''key = value ; note'' ([], Map.empty)
     = (Inr True, ([], store Map.empty [] ''key'' ''value''))"
proof -
  have h1: "CHR ''='' \<notin> set ''key ''" by simp
  have h2: "\<not> is_comment (''key '' @ ''='' @ '' value ; note'')" by (simp add: spec_defs)
  have h3: "length (''key '' @ ''='' @ '' value ; note'') < 2 ^ 64" by simp
  have h4: "CHR '';'' \<notin> set ''key ''" by simp
  have h5: "\<not> blank ''key ''" by (simp add: spec_defs)
  have h6: "\<not> blank (takeWhile (\<lambda>c. c \<noteq> CHR '';'') '' value ; note'')" by (simp add: spec_defs)
  have t: "trim_spaces ''key '' = ''key''"
    "trim_spaces (takeWhile (\<lambda>c. c \<noteq> CHR '';'') '' value ; note'') = ''value''"
    by (simp_all add: spec_defs)
  from parse_inline_plain_assignment [OF h1 h2 h3 h4 h5 h6, of "[]" Map.empty]
  show ?thesis unfolding t by simp
qed

subsection \<open>The current section\<close>












subsection \<open>No empty section\<close>








lemma builder_store_X: "builder (store_X S K V st) = store (builder st) S K V"
  by (simp add: store_X_def Let_def split: option.splits)

lemma builder_open_section: "builder (snd (open_section S T st)) = builder st"
  by (simp add: open_section_def split: option.splits)










subsection \<open>Saving: the text written\<close>

lemma getlines_Nil: "getlines [] = []"
  by (simp add: getlines.simps)

lemma dropWhile_neq_split: "c \<notin> set a \<Longrightarrow> dropWhile (\<lambda>x. x \<noteq> c) (a @ c # r) = c # r"
  by (induction a) auto

lemma getlines_line:
  assumes "CHR 0x0A \<notin> set l"
  shows "getlines (l @ CHR 0x0A # rest) = l # getlines rest"
proof -
  have "l @ CHR 0x0A # rest \<noteq> []" by simp
  then have "getlines (l @ CHR 0x0A # rest) =
      takeWhile (\<lambda>c. c \<noteq> CHR 0x0A) (l @ CHR 0x0A # rest)
      # getlines (tl (dropWhile (\<lambda>c. c \<noteq> CHR 0x0A) (l @ CHR 0x0A # rest)))"
    by (subst getlines.simps) simp
  then show ?thesis
    using assms by (simp add: takeWhile_neq_split dropWhile_neq_split)
qed

lemma getlines_join:
  "\<forall>l \<in> set ls. CHR 0x0A \<notin> set l \<Longrightarrow> getlines (join_lines ls) = ls"
proof (induction ls)
  case Nil
  show ?case by (simp add: join_lines_def getlines_Nil)
next
  case (Cons l ls)
  then have "getlines (join_lines ls) = ls" and nl: "CHR 0x0A \<notin> set l" by simp_all
  moreover have "join_lines (l # ls) = l @ CHR 0x0A # join_lines ls"
    by (simp add: join_lines_def)
  ultimately show ?case by (simp add: getlines_line)
qed

lemma join_lines_append: "join_lines (xs @ ys) = join_lines xs @ join_lines ys"
  by (simp add: join_lines_def)

lemma find_str_first:
  "find_str k pat = Some p \<Longrightarrow> k = a @ pat @ c \<Longrightarrow> p \<le> length a"
proof (induction k arbitrary: p a)
  case Nil
  then show ?case by (simp split: if_splits)
next
  case (Cons x xs)
  show ?case
  proof (cases a)
    case Nil
    with Cons.prems(2) have "take (length pat) (x # xs) = pat" by simp
    with Cons.prems(1) show ?thesis by simp
  next
    case (Cons y ys)
    note a = this
    show ?thesis
    proof (cases "take (length pat) (x # xs) = pat")
      case True
      with Cons.prems(1) show ?thesis by simp
    next
      case False
      with Cons.prems(1) have "map_option Suc (find_str xs pat) = Some p" by simp
      then obtain j where j: "find_str xs pat = Some j" and p: "p = Suc j"
        by (cases "find_str xs pat") simp_all
      from Cons.prems(2) a have "xs = ys @ pat @ c" by simp
      from Cons.IH [OF j this] show ?thesis unfolding p a by simp
    qed
  qed
qed

lemma find_str_take_None:
  assumes f: "find_str k pat = Some p" and ne: "pat \<noteq> []"
  shows "find_str (take p k) pat = None"
proof -
  have "take p k \<noteq> a @ pat @ c" for a c
  proof
    assume e: "take p k = a @ pat @ c"
    have "k = take p k @ drop p k" by simp
    then have "k = a @ pat @ (c @ drop p k)" unfolding e by simp
    with f have "p \<le> length a" by (rule find_str_first)
    moreover have "length (take p k) \<le> p" by simp
    then have "length a + length pat + length c \<le> p" unfolding e by simp
    ultimately have "length pat = 0" by arith
    with ne show False by simp
  qed
  then show ?thesis by (simp add: find_str_None_iff)
qed

lemma find_str_get_array_name: "find_str (get_array_name k) ''[]'' = None"
proof (cases "find_str k ''[]''")
  case None
  then show ?thesis by (simp add: get_array_name_def)
next
  case (Some p)
  then have "find_str (take p k) ''[]'' = None" by (rule find_str_take_None) simp
  with Some show ?thesis by (simp add: get_array_name_def substr_n_def)
qed

lemma find_str_section_name:
  "CHR '']'' \<notin> set s \<Longrightarrow> find_str n ''[]'' = None \<Longrightarrow> find_str (s @ CHR ''/'' # n) ''[]'' = None"
proof (induction s)
  case Nil
  then show ?case by simp
next
  case (Cons c cs)
  then have ih: "find_str (cs @ CHR ''/'' # n) ''[]'' = None" by simp
  from Cons.prems(1) have "take 2 (c # cs @ CHR ''/'' # n) \<noteq> ''[]''"
    by (cases cs) auto
  with ih show ?case by (simp add: numeral_2_eq_2)
qed

lemma array_name_plain:
  "CHR '']'' \<notin> set s \<Longrightarrow> get_array_name (s @ ''/'' @ get_array_name k) = s @ ''/'' @ get_array_name k"
  using find_str_section_name [of s "get_array_name k"] find_str_get_array_name [of k]
  by (simp add: get_array_name_def)

lemma size_of_array2_registered:
  assumes "CHR '']'' \<notin> set s" and "arrays st (s @ ''/'' @ get_array_name k) = Some es"
  shows "size_of_array2 st s k = Inr (length es)"
  using assms array_name_plain [OF assms(1), of k]
  by (simp add: size_of_array2_def is_array1_def arrays_at_def Let_def)

lemma value_of_array2_registered:
  assumes "CHR '']'' \<notin> set s" and "arrays st (s @ ''/'' @ get_array_name k) = Some es"
    and "idx < length es"
  shows "value_of_array2 st s k idx = Inr (es ! idx)"
  using assms array_name_plain [OF assms(1), of k]
  by (simp add: value_of_array2_def is_array1_def arrays_at_def vector_at_def Let_def)

lemma save_array_loop_registered:
  assumes s: "CHR '']'' \<notin> set s" and a: "arrays st (s @ ''/'' @ get_array_name k) = Some es"
  shows "idx \<le> length es \<Longrightarrow>
    save_array_loop st s k idx acc =
      Inr (acc @ join_lines (map (\<lambda>e. k @ '' = '' @ e) (drop idx es)))"
proof (induction "length es - idx" arbitrary: idx acc)
  case 0
  then have "idx = length es" by simp
  then show ?case
    by (subst save_array_loop.simps)
       (simp add: size_of_array2_registered [OF s a] join_lines_def)
next
  case (Suc n)
  then have lt: "idx < length es" and n: "n = length es - (idx + 1)" and le: "idx + 1 \<le> length es"
    by simp_all
  have d: "drop idx es = es ! idx # drop (idx + 1) es"
    using lt by (simp add: Cons_nth_drop_Suc)
  have "save_array_loop st s k idx acc =
      save_array_loop st s k (idx + 1) (acc @ k @ '' = '' @ es ! idx @ [CHR 0x0A])"
    using lt
    by (subst save_array_loop.simps)
       (simp add: size_of_array2_registered [OF s a] value_of_array2_registered [OF s a lt])
  also have "\<dots> = Inr ((acc @ k @ '' = '' @ es ! idx @ [CHR 0x0A])
      @ join_lines (map (\<lambda>e. k @ '' = '' @ e) (drop (idx + 1) es)))"
    using n le by (rule Suc.hyps(1))
  finally show ?case unfolding d by (simp add: join_lines_def)
qed

lemma key_lines_scalar:
  "find_str k ''[]'' = None \<Longrightarrow> key_lines st s (k, v) = [k @ '' = '' @ v]"
  by (simp add: key_lines_def)

lemma key_lines_array:
  "find_str k ''[]'' = Some p \<Longrightarrow> key_lines st s (k, v) = map (\<lambda>e. k @ '' = '' @ e) (elems st s k)"
  by (simp add: key_lines_def)

lemma section_lines_eq:
  "section_lines st (s, kvs) = (''['' @ s @ '']'') # concat (map (key_lines st s) kvs) @ [[]]"
  by (simp add: section_lines_def)

lemma view_lines_Cons: "view_lines st (skvs # vw) = section_lines st skvs @ view_lines st vw"
  by (simp add: view_lines_def)

lemma save_keys_X_lines:
  assumes s: "CHR '']'' \<notin> set s"
  shows "\<forall>kv \<in> set kvs. entry_ok st s kv \<Longrightarrow>
    save_keys_X st s kvs acc = Inr (acc @ join_lines (concat (map (key_lines st s) kvs)))"
proof (induction kvs arbitrary: acc)
  case Nil
  show ?case by (simp add: join_lines_def)
next
  case (Cons kv kvs)
  obtain k v where kv: "kv = (k, v)" by (cases kv)
  from Cons.prems have ok: "entry_ok st s (k, v)" and rest: "\<forall>kv \<in> set kvs. entry_ok st s kv"
    unfolding kv by simp_all
  show ?case
  proof (cases "find_str k ''[]''")
    case None
    have "save_keys_X st s ((k, v) # kvs) acc = save_keys_X st s kvs (acc @ k @ '' = '' @ v @ [CHR 0x0A])"
      using None by simp
    also have "\<dots> = Inr ((acc @ k @ '' = '' @ v @ [CHR 0x0A])
        @ join_lines (concat (map (key_lines st s) kvs)))"
      using rest by (rule Cons.IH)
    finally show ?thesis
      unfolding kv using None by (simp add: key_lines_scalar join_lines_def)
  next
    case (Some p)
    with ok obtain es where a: "arrays st (s @ ''/'' @ get_array_name k) = Some es"
      by (auto simp: entry_ok_def split: option.splits)
    have l: "save_array_loop st s k 0 acc = Inr (acc @ join_lines (map (\<lambda>e. k @ '' = '' @ e) es))"
      using save_array_loop_registered [OF s a, of 0 acc] by simp
    have "save_keys_X st s ((k, v) # kvs) acc =
        save_keys_X st s kvs (acc @ join_lines (map (\<lambda>e. k @ '' = '' @ e) es))"
      using Some l by simp
    also have "\<dots> = Inr ((acc @ join_lines (map (\<lambda>e. k @ '' = '' @ e) es))
        @ join_lines (concat (map (key_lines st s) kvs)))"
      using rest by (rule Cons.IH)
    finally show ?thesis
      unfolding kv using Some a by (simp add: key_lines_array elems_def join_lines_append)
  qed
qed

lemma save_sections_X_lines:
  "\<forall>(s, kvs) \<in> set vw. CHR '']'' \<notin> set s \<and> (\<forall>kv \<in> set kvs. entry_ok st s kv) \<Longrightarrow>
    save_sections_X st vw acc = Inr (acc @ join_lines (view_lines st vw))"
proof (induction vw arbitrary: acc)
  case Nil
  show ?case by (simp add: view_lines_def join_lines_def)
next
  case (Cons skvs vw)
  obtain s kvs where skvs: "skvs = (s, kvs)" by (cases skvs)
  from Cons.prems have s: "CHR '']'' \<notin> set s" and ok: "\<forall>kv \<in> set kvs. entry_ok st s kv"
    and rest: "\<forall>(s, kvs) \<in> set vw. CHR '']'' \<notin> set s \<and> (\<forall>kv \<in> set kvs. entry_ok st s kv)"
    unfolding skvs by simp_all
  have k: "save_keys_X st s kvs (acc @ ''['' @ s @ '']'' @ [CHR 0x0A]) =
      Inr ((acc @ ''['' @ s @ '']'' @ [CHR 0x0A]) @ join_lines (concat (map (key_lines st s) kvs)))"
    using s ok by (rule save_keys_X_lines)
  have "save_sections_X st ((s, kvs) # vw) acc =
      save_sections_X st vw
        (((acc @ ''['' @ s @ '']'' @ [CHR 0x0A]) @ join_lines (concat (map (key_lines st s) kvs)))
           @ [CHR 0x0A])"
    using k by simp
  also have "\<dots> = Inr ((((acc @ ''['' @ s @ '']'' @ [CHR 0x0A])
        @ join_lines (concat (map (key_lines st s) kvs))) @ [CHR 0x0A])
        @ join_lines (view_lines st vw))"
    using rest by (rule Cons.IH)
  finally show ?case
    unfolding skvs by (simp add: view_lines_Cons section_lines_eq join_lines_def)
qed

subsection \<open>Parsing the saved lines\<close>

lemma trimmed_not_blank: "trimmed s \<Longrightarrow> \<not> blank s"
proof -
  assume t: "trimmed s"
  then have "s \<noteq> []" and "hd s \<noteq> CHR '' ''" by (simp_all add: trimmed_def)
  then have "hd s \<in> set s" and "hd s \<noteq> CHR '' ''" by simp_all
  then show ?thesis unfolding blank_def by blast
qed

lemma trim_spaces_trimmed: "trimmed s \<Longrightarrow> trim_spaces s = s"
proof -
  assume t: "trimmed s"
  then have ne: "s \<noteq> []" and h: "hd s \<noteq> CHR '' ''" and l: "last s \<noteq> CHR '' ''"
    by (simp_all add: trimmed_def)
  from ne h have d: "dropWhile (\<lambda>c. c = CHR '' '') s = s" by (cases s) simp_all
  from ne l have "hd (rev s) \<noteq> CHR '' ''" by (simp add: hd_rev)
  with ne have "dropWhile (\<lambda>c. c = CHR '' '') (rev s) = rev s" by (cases "rev s") simp_all
  with d show ?thesis by (simp add: trim_spaces_def)
qed

lemma trim_spaces_leading: "trim_spaces (CHR '' '' # s) = trim_spaces s"
  by (simp add: trim_spaces_def)

lemma trim_spaces_trailing: "trimmed s \<Longrightarrow> trim_spaces (s @ '' '') = s"
proof -
  assume t: "trimmed s"
  then have ne: "s \<noteq> []" and h: "hd s \<noteq> CHR '' ''" and l: "last s \<noteq> CHR '' ''"
    by (simp_all add: trimmed_def)
  from ne h have d: "dropWhile (\<lambda>c. c = CHR '' '') (s @ '' '') = s @ '' ''" by (cases s) simp_all
  from ne l have "hd (rev s) \<noteq> CHR '' ''" by (simp add: hd_rev)
  with ne have "dropWhile (\<lambda>c. c = CHR '' '') (rev s) = rev s" by (cases "rev s") simp_all
  with d show ?thesis by (simp add: trim_spaces_def)
qed

lemma key_line_parse:
  assumes k: "key_ok k" and v: "value_ok k v"
  shows "parse_inline_X (k @ '' = '' @ v) (sec, x) = (Inr True, (sec, store_X sec k v x))"
proof -
  from k have tk: "trimmed k" and eq: "CHR ''='' \<notin> set k" and nc: "\<not> is_comment k"
    by (simp_all add: key_ok_def)
  from v have tv: "trimmed v" and semi: "CHR '';'' \<in> set v \<longrightarrow> CHR '';'' \<in> set k"
    and len: "length k + length v + 3 < 2 ^ 64"
    by (simp_all add: value_ok_def)
  from tk have kne: "k \<noteq> []" by (simp add: trimmed_def)
  have eq': "CHR ''='' \<notin> set (k @ '' '')" using eq by simp
  have len': "length ((k @ '' '') @ CHR ''='' # ('' '' @ v)) < 2 ^ 64" using len by simp
  have nc': "\<not> is_comment (k @ '' '')" using nc kne by (cases k) (simp_all add: is_comment_def)
  have nbk: "\<not> blank (k @ '' '')" using trimmed_not_blank [OF tk] by (simp add: blank_def)
  have vt: "value_text (k @ '' '') ('' '' @ v) = '' '' @ v"
  proof (cases "CHR '';'' \<in> set v")
    case True
    with semi show ?thesis by (simp add: value_text_def)
  next
    case False
    then have "takeWhile (\<lambda>c. c \<noteq> CHR '';'') ('' '' @ v) = '' '' @ v" by auto
    then show ?thesis by (simp add: value_text_def)
  qed
  have nbv: "\<not> blank ('' '' @ v)" using trimmed_not_blank [OF tv] by (simp add: blank_def)
  have t1: "trim_spaces (k @ '' '') = k" using tk by (rule trim_spaces_trailing)
  have t2: "trim_spaces ('' '' @ v) = v"
    using trim_spaces_trimmed [OF tv] by (simp add: trim_spaces_leading)
  have "parse_inline_X ((k @ '' '') @ CHR ''='' # ('' '' @ v)) (sec, x) =
      (Inr True, (sec, store_X sec (trim_spaces (k @ '' ''))
         (trim_spaces (value_text (k @ '' '') ('' '' @ v))) x))"
    using parse_inline_X_assign [OF eq' len', of sec x] nc' nbk nbv
    by (simp only: vt if_False simp_thms)
  then show ?thesis unfolding vt t1 t2 by simp
qed

lemma blank_line_parse: "parse_inline_X [] st = (Inr False, st)"
  by (cases st) (simp add: parse_inline_X_def find_chr_def)

lemma header_line_parse:
  assumes s: "section_ok s"
  shows "parse_inline_X (''['' @ s @ '']'') (sec, x) = (Inr False, open_section sec s x)"
proof -
  from s have eq: "CHR ''='' \<notin> set s" and br: "CHR '']'' \<notin> set s"
    and len: "length s + 2 < 2 ^ 64"
    by (simp_all add: section_ok_def)
  have f1: "find_chr (''['' @ s @ '']'') CHR '';'' \<noteq> Some 0"
    by (simp add: find_chr_def)
  have f2: "find_chr (''['' @ s @ '']'') CHR ''='' = None"
    using eq by (simp add: find_chr_def)
  have f3: "find_chr (''['' @ s @ '']'') CHR ''['' = Some 0"
    by (simp add: find_chr_def)
  have "CHR '']'' \<notin> set (CHR ''['' # s)" using br by simp
  from find_chr_append_first [OF this, of "[]"]
  have f4: "find_chr (''['' @ s @ '']'') CHR '']'' = Some (length s + 1)" by simp
  have "length s + 1 < 2 ^ 64" using len by simp
  then have w1: "sz_sub (length s + 1) 0 = length s + 1" by (simp add: sz_sub_le)
  have "length s + 1 < 2 ^ 64" using len by simp
  then have w2: "sz_sub (length s + 1) 1 = length s" by (simp add: sz_sub_le)
  have cnt: "sz_sub (sz_sub (pos_val (Some (length s + 1))) 0) 1 = length s"
    by (simp only: pos_val_def option.case w1 w2)
  have cut: "substr_n (''['' @ s @ '']'') (0 + 1) (length s) = s"
    by (simp add: substr_n_def)
  show ?thesis
    unfolding parse_inline_X_def using f1
    by (simp only: prod.case if_False f2 f3 f4 option.case Let_def cnt cut simp_thms)
qed

lemma parse_lines_X_append:
  "parse_lines_X (xs @ ys) st =
     (case parse_lines_X xs st of (Inl e, st') \<Rightarrow> (Inl e, st') | (Inr u, st') \<Rightarrow> parse_lines_X ys st')"
  by (induction xs arbitrary: st) (auto split: prod.splits sum.splits)

lemma parse_lines_X_append_ok:
  "parse_lines_X xs st = (Inr (), st') \<Longrightarrow> parse_lines_X (xs @ ys) st = parse_lines_X ys st'"
  by (simp add: parse_lines_X_append)

lemma parse_value_lines:
  assumes k: "key_ok k"
  shows "\<forall>e \<in> set es. value_ok k e \<Longrightarrow>
    parse_lines_X (map (\<lambda>e. k @ '' = '' @ e) es) (s, x) = (Inr (), (s, put_values s k x es))"
proof (induction es arbitrary: x)
  case Nil
  show ?case by (simp add: put_values_def)
next
  case (Cons e es)
  then have v: "value_ok k e" and rest: "\<forall>e \<in> set es. value_ok k e" by simp_all
  have "parse_inline_X (k @ '' = '' @ e) (s, x) = (Inr True, (s, store_X s k e x))"
    using k v by (rule key_line_parse)
  moreover have "parse_lines_X (map (\<lambda>e. k @ '' = '' @ e) es) (s, store_X s k e x)
      = (Inr (), (s, put_values s k (store_X s k e x) es))"
    using rest by (rule Cons.IH)
  ultimately show ?case by (simp add: put_values_def)
qed

lemma key_lines_vals: "key_lines st s kv = map (\<lambda>e. fst kv @ '' = '' @ e) (vals st s kv)"
  by (cases kv) (simp add: key_lines_def vals_def split: option.splits)

lemma entry_ok_vals:
  assumes "entry_ok st s kv"
  shows "key_ok (fst kv)" and "\<forall>e \<in> set (vals st s kv). value_ok (fst kv) e"
    and "vals st s kv \<noteq> []" and "last (vals st s kv) = snd kv"
  using assms
  by (cases kv; auto simp: entry_ok_def vals_def elems_def split: option.splits)+

lemma parse_key_lines:
  "\<forall>kv \<in> set kvs. entry_ok st s kv \<Longrightarrow>
    parse_lines_X (concat (map (key_lines st s) kvs)) (s, x) = (Inr (), (s, put_keys st s x kvs))"
proof (induction kvs arbitrary: x)
  case Nil
  show ?case by (simp add: put_keys_def)
next
  case (Cons kv kvs)
  then have ok: "entry_ok st s kv" and rest: "\<forall>kv \<in> set kvs. entry_ok st s kv" by simp_all
  have "parse_lines_X (key_lines st s kv) (s, x) = (Inr (), (s, put_values s (fst kv) x (vals st s kv)))"
    unfolding key_lines_vals
    using entry_ok_vals(1) [OF ok] entry_ok_vals(2) [OF ok] by (rule parse_value_lines)
  then have "parse_lines_X (key_lines st s kv @ concat (map (key_lines st s) kvs)) (s, x)
      = parse_lines_X (concat (map (key_lines st s) kvs)) (s, put_values s (fst kv) x (vals st s kv))"
    by (rule parse_lines_X_append_ok)
  also have "\<dots> = (Inr (), (s, put_keys st s (put_values s (fst kv) x (vals st s kv)) kvs))"
    using rest by (rule Cons.IH)
  finally show ?case by (simp add: put_keys_def)
qed

lemma fst_open_section: "section_ok s \<Longrightarrow> fst (open_section sec s x) = s"
  by (simp add: open_section_def section_ok_def split: option.splits)

lemma parse_section_lines:
  assumes s: "section_ok s" and ok: "\<forall>kv \<in> set kvs. entry_ok st s kv"
  shows "parse_lines_X (section_lines st (s, kvs)) (sec, x)
    = (Inr (), (s, put_keys st s (snd (open_section sec s x)) kvs))"
proof -
  have h: "parse_inline_X (''['' @ s @ '']'') (sec, x) = (Inr False, (s, snd (open_section sec s x)))"
    using header_line_parse [OF s, of sec x] fst_open_section [OF s, of sec x]
    by (cases "open_section sec s x") simp
  have k: "parse_lines_X (concat (map (key_lines st s) kvs)) (s, snd (open_section sec s x))
      = (Inr (), (s, put_keys st s (snd (open_section sec s x)) kvs))"
    using ok by (rule parse_key_lines)
  have "parse_lines_X (concat (map (key_lines st s) kvs) @ [[]]) (s, snd (open_section sec s x))
      = parse_lines_X [[]] (s, put_keys st s (snd (open_section sec s x)) kvs)"
    using k by (rule parse_lines_X_append_ok)
  also have "\<dots> = (Inr (), (s, put_keys st s (snd (open_section sec s x)) kvs))"
    by (simp add: blank_line_parse)
  finally show ?thesis using h by (simp add: section_lines_eq)
qed

lemma parse_view_lines:
  "\<forall>(s, kvs) \<in> set vw. section_ok s \<and> (\<forall>kv \<in> set kvs. entry_ok st s kv) \<Longrightarrow>
    parse_lines_X (view_lines st vw) sx = (Inr (), put_sections st sx vw)"
proof (induction vw arbitrary: sx)
  case Nil
  show ?case by (simp add: view_lines_def put_sections_def)
next
  case (Cons skvs vw)
  obtain s kvs where skvs: "skvs = (s, kvs)" by (cases skvs)
  obtain sec x where sx: "sx = (sec, x)" by (cases sx)
  from Cons.prems have s: "section_ok s" and ok: "\<forall>kv \<in> set kvs. entry_ok st s kv"
    and rest: "\<forall>(s, kvs) \<in> set vw. section_ok s \<and> (\<forall>kv \<in> set kvs. entry_ok st s kv)"
    unfolding skvs by simp_all
  have "parse_lines_X (section_lines st (s, kvs)) (sec, x)
    = (Inr (), (s, put_keys st s (snd (open_section sec s x)) kvs))"
    using s ok by (rule parse_section_lines)
  then have "parse_lines_X (section_lines st (s, kvs) @ view_lines st vw) (sec, x)
    = parse_lines_X (view_lines st vw) (s, put_keys st s (snd (open_section sec s x)) kvs)"
    by (rule parse_lines_X_append_ok)
  also have "\<dots> = (Inr (), put_sections st (s, put_keys st s (snd (open_section sec s x)) kvs) vw)"
    using rest by (rule Cons.IH)
  finally show ?case unfolding skvs sx by (simp add: view_lines_Cons put_sections_def)
qed

lemma store_store: "store (store b s k e1) s k e2 = store b s k e2"
  by (rule ext) (simp add: store_def at_or_new_def)

lemma arrays_store_X:
  "arrays (store_X s k e x) =
     (if find_str k ''[]'' = None then arrays x
      else push_back (arrays x) (s @ ''/'' @ get_array_name k) e)"
  by (simp add: store_X_def get_array_name_def Let_def split: option.splits)

lemma builder_put_values:
  "builder (put_values s k x es) = (if es = [] then builder x else store (builder x) s k (last es))"
proof (induction es rule: rev_induct)
  case Nil
  show ?case by (simp add: put_values_def)
next
  case (snoc e es)
  have "put_values s k x (es @ [e]) = store_X s k e (put_values s k x es)"
    by (simp add: put_values_def)
  with snoc show ?case by (simp add: builder_store_X store_store)
qed

lemma push_back_push_back:
  "push_back (m(n \<mapsto> a)) n e = m(n \<mapsto> a @ [e])"
  by (rule ext) (simp add: push_back_def)

lemma arrays_put_values_plain:
  "find_str k ''[]'' = None \<Longrightarrow> arrays (put_values s k x es) = arrays x"
proof (induction es rule: rev_induct)
  case Nil
  show ?case by (simp add: put_values_def)
next
  case (snoc e es)
  have "put_values s k x (es @ [e]) = store_X s k e (put_values s k x es)"
    by (simp add: put_values_def)
  with snoc show ?case by (simp add: arrays_store_X)
qed

lemma arrays_put_values_array:
  assumes "find_str k ''[]'' \<noteq> None" and "arrays x (s @ ''/'' @ get_array_name k) = None"
  shows "es \<noteq> [] \<Longrightarrow> arrays (put_values s k x es) = (arrays x)(s @ ''/'' @ get_array_name k \<mapsto> es)"
proof (induction es rule: rev_induct)
  case Nil
  then show ?case by simp
next
  case (snoc e es)
  from assms(1) obtain i where fp: "find_str k ''[]'' = Some i" by (cases "find_str k ''[]''") simp_all
  have p: "put_values s k x (es @ [e]) = store_X s k e (put_values s k x es)"
    by (simp add: put_values_def)
  show ?case
  proof (cases "es = []")
    case True
    have "arrays (put_values s k x [e]) = push_back (arrays x) (s @ ''/'' @ get_array_name k) e"
      using fp by (simp add: put_values_def arrays_store_X)
    also have "\<dots> = (arrays x)(s @ ''/'' @ get_array_name k \<mapsto> [e])"
      using assms(2) by (simp add: push_back_def)
    finally show ?thesis using True by simp
  next
    case False
    then have "arrays (put_values s k x es) = (arrays x)(s @ ''/'' @ get_array_name k \<mapsto> es)"
      by (rule snoc.IH)
    then show ?thesis
      unfolding p using fp by (simp add: arrays_store_X push_back_push_back)
  qed
qed

lemma key_names_snoc:
  "key_names s (kvs @ [(k, v)]) =
     key_names s kvs @ (if find_str k ''[]'' = None then [] else [s @ ''/'' @ get_array_name k])"
  by (simp add: key_names_def)

lemma put_keys_snoc:
  "put_keys st s x (kvs @ [kv]) = put_values s (fst kv) (put_keys st s x kvs) (vals st s kv)"
  by (simp add: put_keys_def)

lemma store_fresh:
  "b s = None \<Longrightarrow> store b s k v = b(s \<mapsto> [k \<mapsto> v])"
  by (simp add: store_def at_or_new_def)

lemma store_present:
  "store (b(s \<mapsto> m)) s k v = b(s \<mapsto> m(k \<mapsto> v))"
  by (simp add: store_def at_or_new_def)

lemma map_of_snoc:
  "k \<notin> fst ` set kvs \<Longrightarrow> map_of (kvs @ [(k, v)]) = (map_of kvs)(k \<mapsto> v)"
proof (rule ext)
  fix x
  assume "k \<notin> fst ` set kvs"
  then have "map_of kvs k = None" by (simp add: map_of_eq_None_iff)
  then show "map_of (kvs @ [(k, v)]) x = ((map_of kvs)(k \<mapsto> v)) x"
    by (cases "map_of kvs x") (auto simp: map_add_def)
qed

lemma put_keys_result:
  assumes fresh: "builder x s = None"
  shows "\<lbrakk>\<forall>kv \<in> set kvs. entry_ok st s kv; distinct (map fst kvs); distinct (key_names s kvs);
          \<forall>n \<in> set (key_names s kvs). arrays x n = None\<rbrakk> \<Longrightarrow>
    builder (put_keys st s x kvs) = (if kvs = [] then builder x else (builder x)(s \<mapsto> map_of kvs))
    \<and> (\<forall>n. arrays (put_keys st s x kvs) n
           = (if n \<in> set (key_names s kvs) then arrays st n else arrays x n))"
proof (induction kvs rule: rev_induct)
  case Nil
  show ?case by (simp add: put_keys_def key_names_def)
next
  case (snoc kv kvs)
  obtain k v where kv: "kv = (k, v)" by (cases kv)
  let ?y = "put_keys st s x kvs"
  let ?n = "s @ ''/'' @ get_array_name k"
  from snoc.prems have ok: "entry_ok st s (k, v)" and oks: "\<forall>kv \<in> set kvs. entry_ok st s kv"
    and dk: "distinct (map fst kvs)" and kn: "k \<notin> fst ` set kvs"
    unfolding kv by auto
  from snoc.prems(3) have dn: "distinct (key_names s kvs)"
    and nn: "find_str k ''[]'' \<noteq> None \<longrightarrow> ?n \<notin> set (key_names s kvs)"
    unfolding kv key_names_snoc by (auto split: if_splits)
  from snoc.prems(4) have fr: "\<forall>n \<in> set (key_names s kvs). arrays x n = None"
    and frn: "find_str k ''[]'' \<noteq> None \<longrightarrow> arrays x ?n = None"
    unfolding kv key_names_snoc by (auto split: if_splits)
  from snoc.IH [OF oks dk dn fr]
  have ihb: "builder ?y = (if kvs = [] then builder x else (builder x)(s \<mapsto> map_of kvs))"
    and iha: "\<forall>n. arrays ?y n = (if n \<in> set (key_names s kvs) then arrays st n else arrays x n)"
    by simp_all
  have vne: "vals st s (k, v) \<noteq> []" and vl: "last (vals st s (k, v)) = v"
    using entry_ok_vals(3,4) [OF ok] by simp_all
  have b: "builder (put_keys st s x (kvs @ [(k, v)])) = (builder x)(s \<mapsto> map_of (kvs @ [(k, v)]))"
  proof -
    have "builder (put_keys st s x (kvs @ [(k, v)])) = store (builder ?y) s k v"
      using vne vl by (simp add: put_keys_snoc builder_put_values)
    also have "\<dots> = (builder x)(s \<mapsto> (map_of kvs)(k \<mapsto> v))"
    proof (cases "kvs = []")
      case True
      with ihb fresh show ?thesis by (simp add: store_fresh)
    next
      case False
      with ihb show ?thesis by (simp add: store_present)
    qed
    finally show ?thesis by (simp only: map_of_snoc [OF kn])
  qed
  have a: "arrays (put_keys st s x (kvs @ [(k, v)])) n
      = (if n \<in> set (key_names s (kvs @ [(k, v)])) then arrays st n else arrays x n)" for n
  proof (cases "find_str k ''[]'' = None")
    case True
    then have "arrays (put_keys st s x (kvs @ [(k, v)])) = arrays ?y"
      by (simp add: put_keys_snoc arrays_put_values_plain)
    with iha True show ?thesis by (simp add: key_names_snoc)
  next
    case False
    then obtain i where fp: "find_str k ''[]'' = Some i" by (cases "find_str k ''[]''") simp_all
    from False nn have "?n \<notin> set (key_names s kvs)" by (rule rev_mp)
    moreover from False frn have "arrays x ?n = None" by (rule rev_mp)
    ultimately have yn: "arrays ?y ?n = None" using iha by simp
    from fp ok have reg: "arrays st ?n = Some (vals st s (k, v))"
      by (auto simp: entry_ok_def vals_def elems_def split: option.splits)
    have "arrays (put_keys st s x (kvs @ [(k, v)])) = (arrays ?y)(?n \<mapsto> vals st s (k, v))"
      using arrays_put_values_array [OF False yn vne] by (simp add: put_keys_snoc)
    with iha reg fp show ?thesis by (simp add: key_names_snoc)
  qed
  from a b show ?case unfolding kv by simp
qed

lemma arrays_open_section: "arrays (snd (open_section S T st)) = arrays st"
  by (simp add: open_section_def split: option.splits)

lemma put_sections_snoc:
  "put_sections st sx (vw @ [(s, kvs)]) =
     (s, put_keys st s (snd (open_section (fst (put_sections st sx vw)) s (snd (put_sections st sx vw)))) kvs)"
  by (simp add: put_sections_def)

lemma array_names_snoc: "array_names (vw @ [(s, kvs)]) = array_names vw @ key_names s kvs"
  by (simp add: array_names_def)

lemma view_map_snoc:
  assumes "s \<notin> fst ` set vw"
  shows "view_map (vw @ [(s, kvs)]) = (view_map vw)(s \<mapsto> map_of kvs)"
proof -
  have "fst ` set (map (\<lambda>(s, kvs). (s, map_of kvs)) vw) = fst ` set vw" by force
  with assms have "s \<notin> fst ` set (map (\<lambda>(s, kvs). (s, map_of kvs)) vw)" by simp
  then have "map_of (map (\<lambda>(s, kvs). (s, map_of kvs)) vw @ [(s, map_of kvs)])
      = (map_of (map (\<lambda>(s, kvs). (s, map_of kvs)) vw))(s \<mapsto> map_of kvs)"
    by (rule map_of_snoc)
  then show ?thesis by (simp add: view_map_def)
qed

lemma view_map_None: "s \<notin> fst ` set vw \<Longrightarrow> view_map vw s = None"
proof -
  assume a: "s \<notin> fst ` set vw"
  have "fst ` set (map (\<lambda>(s, kvs). (s, map_of kvs)) vw) = fst ` set vw" by force
  with a show ?thesis by (simp add: view_map_def map_of_eq_None_iff)
qed

lemma put_sections_result:
  "\<lbrakk>\<forall>(s, kvs) \<in> set vw. section_ok s \<and> kvs \<noteq> [] \<and> distinct (map fst kvs)
        \<and> (\<forall>kv \<in> set kvs. entry_ok st s kv);
    distinct (map fst vw); distinct (array_names vw)\<rbrakk> \<Longrightarrow>
   builder (snd (put_sections st (sec0, emptyX) vw)) = view_map vw
   \<and> (\<forall>n. arrays (snd (put_sections st (sec0, emptyX) vw)) n
          = (if n \<in> set (array_names vw) then arrays st n else None))"
proof (induction vw rule: rev_induct)
  case Nil
  show ?case by (simp add: put_sections_def view_map_def array_names_def emptyX_def)
next
  case (snoc skvs vw)
  obtain s kvs where skvs: "skvs = (s, kvs)" by (cases skvs)
  let ?p = "put_sections st (sec0, emptyX) vw"
  let ?x = "snd (open_section (fst ?p) s (snd ?p))"
  from snoc.prems(1) have s: "section_ok s" and ne: "kvs \<noteq> []" and dk: "distinct (map fst kvs)"
    and ok: "\<forall>kv \<in> set kvs. entry_ok st s kv"
    and rest: "\<forall>(s, kvs) \<in> set vw. section_ok s \<and> kvs \<noteq> [] \<and> distinct (map fst kvs)
        \<and> (\<forall>kv \<in> set kvs. entry_ok st s kv)"
    unfolding skvs by simp_all
  from snoc.prems(2) have dv: "distinct (map fst vw)" and sn: "s \<notin> fst ` set vw"
    unfolding skvs by simp_all
  from snoc.prems(3) have da: "distinct (array_names vw)" and dn: "distinct (key_names s kvs)"
    and disj: "set (array_names vw) \<inter> set (key_names s kvs) = {}"
    unfolding skvs array_names_snoc by simp_all
  from snoc.IH [OF rest dv da]
  have ihb: "builder (snd ?p) = view_map vw"
    and iha: "\<forall>n. arrays (snd ?p) n = (if n \<in> set (array_names vw) then arrays st n else None)"
    by simp_all
  have xb: "builder ?x = view_map vw" using ihb by (simp add: builder_open_section)
  have xa: "arrays ?x = arrays (snd ?p)" by (rule arrays_open_section)
  have fresh: "builder ?x s = None" unfolding xb using sn by (rule view_map_None)
  have fa: "\<forall>n \<in> set (key_names s kvs). arrays ?x n = None"
    unfolding xa using iha disj by auto
  from put_keys_result [OF fresh ok dk dn fa] ne
  have rb: "builder (put_keys st s ?x kvs) = (builder ?x)(s \<mapsto> map_of kvs)"
    and ra: "\<forall>n. arrays (put_keys st s ?x kvs) n
           = (if n \<in> set (key_names s kvs) then arrays st n else arrays ?x n)"
    by simp_all
  have b: "builder (snd (put_sections st (sec0, emptyX) (vw @ [(s, kvs)]))) = view_map (vw @ [(s, kvs)])"
    unfolding put_sections_snoc using rb xb by (simp add: view_map_snoc [OF sn])
  have a: "arrays (snd (put_sections st (sec0, emptyX) (vw @ [(s, kvs)]))) n
          = (if n \<in> set (array_names (vw @ [(s, kvs)])) then arrays st n else None)" for n
    unfolding put_sections_snoc array_names_snoc using ra xa iha by simp
  from a b show ?case unfolding skvs by simp
qed

lemma key_lines_no_newline:
  assumes "entry_ok st s kv"
  shows "\<forall>l \<in> set (key_lines st s kv). CHR 0x0A \<notin> set l"
proof -
  from entry_ok_vals(1) [OF assms] have "CHR 0x0A \<notin> set (fst kv)" by (simp add: key_ok_def)
  moreover from entry_ok_vals(2) [OF assms]
  have "\<forall>e \<in> set (vals st s kv). CHR 0x0A \<notin> set e" by (simp add: value_ok_def)
  ultimately show ?thesis unfolding key_lines_vals by auto
qed

lemma section_lines_no_newline:
  assumes "section_ok s" and "\<forall>kv \<in> set kvs. entry_ok st s kv"
  shows "\<forall>l \<in> set (section_lines st (s, kvs)). CHR 0x0A \<notin> set l"
proof -
  from assms(1) have "CHR 0x0A \<notin> set (''['' @ s @ '']'')" by (simp add: section_ok_def)
  moreover have "\<forall>l \<in> set (concat (map (key_lines st s) kvs)). CHR 0x0A \<notin> set l"
    using assms(2) key_lines_no_newline by auto
  ultimately show ?thesis unfolding section_lines_eq by auto
qed

lemma view_lines_no_newline:
  assumes "\<forall>(s, kvs) \<in> set vw. section_ok s \<and> (\<forall>kv \<in> set kvs. entry_ok st s kv)"
  shows "\<forall>l \<in> set (view_lines st vw). CHR 0x0A \<notin> set l"
  using assms
proof (induction vw)
  case Nil
  show ?case by (simp add: view_lines_def)
next
  case (Cons skvs vw)
  obtain s kvs where skvs: "skvs = (s, kvs)" by (cases skvs)
  from Cons.prems have "section_ok s" and "\<forall>kv \<in> set kvs. entry_ok st s kv"
    unfolding skvs by simp_all
  then have "\<forall>l \<in> set (section_lines st (s, kvs)). CHR 0x0A \<notin> set l"
    by (rule section_lines_no_newline)
  moreover from Cons have "\<forall>l \<in> set (view_lines st vw). CHR 0x0A \<notin> set l" by simp
  ultimately show ?case unfolding skvs view_lines_Cons by auto
qed

subsection \<open>Saving and parsing again\<close>

lemmas parse_defs =
  load_ini_file_X_def getlines.simps parse_inline_X_def find_chr_def Let_def
  substr_n_def substr_end_def pos_val_def sz_sub_def strip_def find_first_not_of_def
  find_last_not_of_def substr_def store_def store_X_def open_section_def push_back_def
  char0_def at_or_new_def emptyX_def

lemmas save_defs =
  save_ini_file_X_def save_array_loop.simps size_of_array2_def value_of_array2_def
  is_array1_def get_array_name_def arrays_at_def vector_at_def substr_n_def Let_def

lemmas ok_defs =
  roundtrip_ok_def iteration_def view_map_def section_ok_def entry_ok_def key_ok_def
  value_ok_def trimmed_def is_comment_def array_names_def key_names_def get_array_name_def
  substr_n_def char0_def

lemmas lines_defs =
  join_lines_def view_lines_def section_lines_def key_lines_def elems_def get_array_name_def
  substr_n_def

text \<open>
  C1, as stated, fails. Parsing the two lines \<^verbatim>\<open>[S]\<close> and \<^verbatim>\<open> ;a = b\<close> (the second
  starts with a space) stores the key \<^verbatim>\<open>;a\<close> with the value \<^verbatim>\<open>b\<close> in section
  \<^verbatim>\<open>S\<close>. Saving writes the line \<^verbatim>\<open>;a = b\<close>, which the parser reads as a comment:
  the document parsed from the saved text is empty.
\<close>

theorem roundtrip_counterexample:
  "fst (load_ini_file_X (Some (''[S]'' @ [CHR 0x0A] @ '' ;a = b'')) ([], emptyX)) = Inr True
   \<and> snd (load_ini_file_X (Some (''[S]'' @ [CHR 0x0A] @ '' ;a = b'')) ([], emptyX))
       = (''S'', \<lparr>builder = [''S'' \<mapsto> ['';a'' \<mapsto> ''b'']], arrays = Map.empty,
                  connection = Map.empty\<rparr>)
   \<and> iteration [(''S'', [('';a'', ''b'')])] [''S'' \<mapsto> ['';a'' \<mapsto> ''b'']]
   \<and> save_ini_file_X True
         \<lparr>builder = [''S'' \<mapsto> ['';a'' \<mapsto> ''b'']], arrays = Map.empty, connection = Map.empty\<rparr>
         [(''S'', [('';a'', ''b'')])]
       = Inr (''[S]'' @ [CHR 0x0A] @ '';a = b'' @ [CHR 0x0A] @ [CHR 0x0A])
   \<and> load_ini_file_X (Some (''[S]'' @ [CHR 0x0A] @ '';a = b'' @ [CHR 0x0A] @ [CHR 0x0A]))
         (''S'', emptyX)
       = (Inr True, (''S'', emptyX))"
  by (simp add: parse_defs save_defs iteration_def view_map_def)

text \<open>
  C1 (amended): let the state of an extended parser and an order of visiting its document
  satisfy \<open>roundtrip_ok\<close>: section names without \<^verbatim>\<open>=\<close>, \<^verbatim>\<open>]\<close> and newline that do
  not start with \<^verbatim>\<open>.\<close>; keys that are not empty, have no space at either end, no
  \<^verbatim>\<open>=\<close> and no newline and do not start with \<^verbatim>\<open>;\<close>; values and array elements that
  are not empty, have no space at either end and no newline, and contain \<^verbatim>\<open>;\<close> only
  when their key does; every key with \<^verbatim>\<open>[]\<close> registered in \<^verbatim>\<open>arrays\<close> with a
  non-empty sequence whose last element is the value of the entry, no two such keys
  registered under one name and nothing else in \<^verbatim>\<open>arrays\<close>; lines shorter than
  \<open>2^64\<close>. Then \<^verbatim>\<open>save_ini_file\<close> writes the lines of the specification, and a new
  parser that loads this text, whatever the current section is at that moment, ends with
  the same document and the same arrays, each with its elements in the same order.
\<close>

theorem save_then_parse_roundtrip:
  assumes ok: "roundtrip_ok st vw"
  shows "save_ini_file_X True st vw = Inr (join_lines (view_lines st vw))
       \<and> fst (load_ini_file_X (Some (join_lines (view_lines st vw))) (sec0, emptyX)) = Inr True
       \<and> builder (snd (snd (load_ini_file_X (Some (join_lines (view_lines st vw))) (sec0, emptyX))))
           = builder st
       \<and> arrays (snd (snd (load_ini_file_X (Some (join_lines (view_lines st vw))) (sec0, emptyX))))
           = arrays st"
proof -
  from ok have it: "iteration vw (builder st)"
    and secs: "\<forall>(s, kvs) \<in> set vw. section_ok s \<and> kvs \<noteq> [] \<and> (\<forall>kv \<in> set kvs. entry_ok st s kv)"
    and da: "distinct (array_names vw)" and dom: "set (array_names vw) = dom (arrays st)"
    by (simp_all add: roundtrip_ok_def)
  from it have dv: "distinct (map fst vw)" and dks: "\<forall>(s, kvs) \<in> set vw. distinct (map fst kvs)"
    and vm: "view_map vw = builder st"
    by (simp_all add: iteration_def)
  have c1: "\<forall>(s, kvs) \<in> set vw. CHR '']'' \<notin> set s \<and> (\<forall>kv \<in> set kvs. entry_ok st s kv)"
    using secs by (auto simp: section_ok_def)
  have c2: "\<forall>(s, kvs) \<in> set vw. section_ok s \<and> (\<forall>kv \<in> set kvs. entry_ok st s kv)"
    using secs by auto
  have c3: "\<forall>(s, kvs) \<in> set vw. section_ok s \<and> kvs \<noteq> [] \<and> distinct (map fst kvs)
        \<and> (\<forall>kv \<in> set kvs. entry_ok st s kv)"
    using secs dks by auto
  have sv: "save_ini_file_X True st vw = Inr (join_lines (view_lines st vw))"
    using save_sections_X_lines [OF c1, of "[]"] by (simp add: save_ini_file_X_def)
  have gl: "getlines (join_lines (view_lines st vw)) = view_lines st vw"
    using view_lines_no_newline [OF c2] by (rule getlines_join)
  have pl: "parse_lines_X (view_lines st vw) (sec0, emptyX) = (Inr (), put_sections st (sec0, emptyX) vw)"
    using c2 by (rule parse_view_lines)
  have ld: "load_ini_file_X (Some (join_lines (view_lines st vw))) (sec0, emptyX)
      = (Inr True, put_sections st (sec0, emptyX) vw)"
    by (simp add: load_ini_file_X_def gl pl)
  from put_sections_result [OF c3 dv da, of sec0]
  have rb: "builder (snd (put_sections st (sec0, emptyX) vw)) = view_map vw"
    and ra: "\<forall>n. arrays (snd (put_sections st (sec0, emptyX) vw)) n
          = (if n \<in> set (array_names vw) then arrays st n else None)"
    by simp_all
  have ar: "arrays (snd (put_sections st (sec0, emptyX) vw)) = arrays st"
  proof (rule ext)
    fix n
    show "arrays (snd (put_sections st (sec0, emptyX) vw)) n = arrays st n"
    proof (cases "n \<in> set (array_names vw)")
      case True
      with ra show ?thesis by simp
    next
      case False
      with dom have "arrays st n = None" by auto
      with ra False show ?thesis by simp
    qed
  qed
  from sv ld rb vm ar show ?thesis by simp
qed

theorem save_then_parse_roundtrip_witness:
  "snd (snd (load_ini_file_X
        (Some (''[S]'' @ [CHR 0x0A] @ ''name = x'' @ [CHR 0x0A] @ ''items[] = a'' @ [CHR 0x0A]
               @ ''items[] = b'')) ([], emptyX)))
     = \<lparr>builder = [''S'' \<mapsto> [''name'' \<mapsto> ''x'', ''items[]'' \<mapsto> ''b'']],
        arrays = [''S/items'' \<mapsto> [''a'', ''b'']], connection = Map.empty\<rparr>
   \<and> roundtrip_ok
        \<lparr>builder = [''S'' \<mapsto> [''name'' \<mapsto> ''x'', ''items[]'' \<mapsto> ''b'']],
         arrays = [''S/items'' \<mapsto> [''a'', ''b'']], connection = Map.empty\<rparr>
        [(''S'', [(''items[]'', ''b''), (''name'', ''x'')])]
   \<and> save_ini_file_X True
        \<lparr>builder = [''S'' \<mapsto> [''name'' \<mapsto> ''x'', ''items[]'' \<mapsto> ''b'']],
         arrays = [''S/items'' \<mapsto> [''a'', ''b'']], connection = Map.empty\<rparr>
        [(''S'', [(''items[]'', ''b''), (''name'', ''x'')])]
     = Inr (''[S]'' @ [CHR 0x0A] @ ''items[] = a'' @ [CHR 0x0A] @ ''items[] = b'' @ [CHR 0x0A]
            @ ''name = x'' @ [CHR 0x0A] @ [CHR 0x0A])
   \<and> builder (snd (snd (load_ini_file_X
        (Some (''[S]'' @ [CHR 0x0A] @ ''items[] = a'' @ [CHR 0x0A] @ ''items[] = b'' @ [CHR 0x0A]
            @ ''name = x'' @ [CHR 0x0A] @ [CHR 0x0A])) (''S'', emptyX))))
     = [''S'' \<mapsto> [''name'' \<mapsto> ''x'', ''items[]'' \<mapsto> ''b'']]
   \<and> arrays (snd (snd (load_ini_file_X
        (Some (''[S]'' @ [CHR 0x0A] @ ''items[] = a'' @ [CHR 0x0A] @ ''items[] = b'' @ [CHR 0x0A]
            @ ''name = x'' @ [CHR 0x0A] @ [CHR 0x0A])) (''S'', emptyX))))
     = [''S/items'' \<mapsto> [''a'', ''b'']]"
proof -
  let ?st = "\<lparr>builder = [''S'' \<mapsto> [''name'' \<mapsto> ''x'', ''items[]'' \<mapsto> ''b'']],
         arrays = [''S/items'' \<mapsto> [''a'', ''b'']], connection = Map.empty\<rparr>"
  let ?vw = "[(''S'', [(''items[]'', ''b''), (''name'', ''x'')])]"
  have parsed: "snd (snd (load_ini_file_X
        (Some (''[S]'' @ [CHR 0x0A] @ ''name = x'' @ [CHR 0x0A] @ ''items[] = a'' @ [CHR 0x0A]
               @ ''items[] = b'')) ([], emptyX))) = ?st"
    by (simp add: parse_defs)
  have ok: "roundtrip_ok ?st ?vw"
    by (simp add: ok_defs)
  have tx: "join_lines (view_lines ?st ?vw)
      = ''[S]'' @ [CHR 0x0A] @ ''items[] = a'' @ [CHR 0x0A] @ ''items[] = b'' @ [CHR 0x0A]
            @ ''name = x'' @ [CHR 0x0A] @ [CHR 0x0A]"
    by (simp add: lines_defs)
  note t = save_then_parse_roundtrip [OF ok, of "''S''"]
  from t have a: "save_ini_file_X True ?st ?vw
     = Inr (''[S]'' @ [CHR 0x0A] @ ''items[] = a'' @ [CHR 0x0A] @ ''items[] = b'' @ [CHR 0x0A]
            @ ''name = x'' @ [CHR 0x0A] @ [CHR 0x0A])"
    unfolding tx by simp
  from t have b: "builder (snd (snd (load_ini_file_X
        (Some (''[S]'' @ [CHR 0x0A] @ ''items[] = a'' @ [CHR 0x0A] @ ''items[] = b'' @ [CHR 0x0A]
            @ ''name = x'' @ [CHR 0x0A] @ [CHR 0x0A])) (''S'', emptyX))))
     = [''S'' \<mapsto> [''name'' \<mapsto> ''x'', ''items[]'' \<mapsto> ''b'']]"
    unfolding tx by simp
  from t have c: "arrays (snd (snd (load_ini_file_X
        (Some (''[S]'' @ [CHR 0x0A] @ ''items[] = a'' @ [CHR 0x0A] @ ''items[] = b'' @ [CHR 0x0A]
            @ ''name = x'' @ [CHR 0x0A] @ [CHR 0x0A])) (''S'', emptyX))))
     = [''S/items'' \<mapsto> [''a'', ''b'']]"
    unfolding tx by simp
  from parsed ok a b c show ?thesis by blast
qed

end
